theory Spec2Isabelle
  imports Main
begin

section \<open>JavaScript values, sessions and the event context\<close>

text \<open>
  The values a session can hold. Numbers are the integer-valued ones (a step index is
  written as \<open>0\<close> and advanced by \<open>++\<close>); \<open>NaN\<close>, fractions and infinities are outside
  the model. Objects nested in a session are association lists.
\<close>

datatype jsval =
    JUndefined
  | JNull
  | JBool bool
  | JNum int
  | JStr string
  | JObj "(string \<times> jsval) list"

text \<open>JavaScript truthiness, as used by \<open>&&\<close>, \<open>||\<close>, \<open>!\<close> and \<open>if\<close>.\<close>

fun truthy :: "jsval \<Rightarrow> bool" where
  "truthy JUndefined = False"
| "truthy JNull = False"
| "truthy (JBool b) = b"
| "truthy (JNum n) = (n \<noteq> 0)"
| "truthy (JStr s) = (s \<noteq> [])"
| "truthy (JObj kvs) = True"

text \<open>A string-valued field that may be \<open>undefined\<close> is truthy when it is a non-empty string.\<close>

fun truthy_str :: "string option \<Rightarrow> bool" where
  "truthy_str None = False"
| "truthy_str (Some s) = (s \<noteq> [])"

text \<open>
  A session is a plain object: a mapping from property names to values. Reading a
  property that is not there gives \<open>undefined\<close>. Only own properties are modelled
  (names inherited from \<open>Object.prototype\<close> are not).
\<close>

type_synonym session = "string \<rightharpoonup> jsval"

definition get_prop :: "session \<Rightarrow> string \<Rightarrow> jsval" where
  "get_prop s k = (case s k of None \<Rightarrow> JUndefined | Some v \<Rightarrow> v)"

datatype error = TypeError | SyntaxError | ENOENT | UserError string

text \<open>
  The \<open>Context\<close> object of context.js, with the fields the dispatch and scene code reads
  or writes: \<open>chat.id\<close>, \<open>from.id\<close> (absent on a context built by the constructor),
  \<open>text\<close>, \<open>session\<close>, \<open>scene\<close> and \<open>_sceneStopped\<close>. The \<open>scene\<close> field refers to a
  \<open>Scene\<close> object; the reference is modelled by the scene's name.
\<close>

record ctx =
  chat_id :: "string option"
  from_id :: "string option"
  ctx_text :: "string option"
  session :: session
  scene :: "string option"
  sceneStopped :: bool

text \<open>
  A user callback (a step function, a handler passed to \<open>hears\<close>, \<open>command\<close>, \<open>on\<close>)
  receives the context, may mutate it, and returns a value or throws.
\<close>

type_synonym callback = "ctx \<Rightarrow> (error + jsval) \<times> ctx"

section \<open>Session stores\<close>

text \<open>
  The stores keep one session object per identifier. A stored session is an object and
  hence truthy, so \<open>sessions[id] || {}\<close> is the stored session or the empty object.
\<close>

type_synonym sessions = "string \<rightharpoonup> session"

text \<open>\<open>MemorySessionStore\<close> (scenes.js): \<open>get\<close>, \<open>set\<close>, \<open>clear\<close> on \<open>this.sessions\<close>.\<close>

definition MemorySessionStore_get :: "sessions \<Rightarrow> string \<Rightarrow> error + session" where
  "MemorySessionStore_get ss uid = (case ss uid of Some s \<Rightarrow> Inr s | None \<Rightarrow> Inr Map.empty)"

definition MemorySessionStore_set :: "sessions \<Rightarrow> string \<Rightarrow> session \<Rightarrow> (error + unit) \<times> sessions" where
  "MemorySessionStore_set ss uid s = (Inr (), ss(uid \<mapsto> s))"

definition MemorySessionStore_clear :: "sessions \<Rightarrow> string \<Rightarrow> (error + unit) \<times> sessions" where
  "MemorySessionStore_clear ss uid = (Inr (), ss(uid := None))"

text \<open>
  What \<open>JSON.parse\<close> reads back from what \<open>JSON.stringify\<close> wrote: a property whose
  value is \<open>undefined\<close> is left out, at every depth; the other values of the model are
  written and read unchanged.
\<close>

fun json_value :: "jsval \<Rightarrow> jsval"
  and json_props :: "(string \<times> jsval) list \<Rightarrow> (string \<times> jsval) list" where
  "json_value (JObj kvs) = JObj (json_props kvs)"
| "json_value JUndefined = JUndefined"
| "json_value JNull = JNull"
| "json_value (JBool b) = JBool b"
| "json_value (JNum n) = JNum n"
| "json_value (JStr s) = JStr s"
| "json_props [] = []"
| "json_props (kv # kvs) =
     (if snd kv = JUndefined then json_props kvs
      else (fst kv, json_value (snd kv)) # json_props kvs)"

definition json_session :: "session \<Rightarrow> session" where
  "json_session s k =
     (case s k of
        None \<Rightarrow> None
      | Some v \<Rightarrow> if v = JUndefined then None else Some (json_value v))"

definition json_sessions :: "sessions \<Rightarrow> sessions" where
  "json_sessions ss uid = (case ss uid of None \<Rightarrow> None | Some s \<Rightarrow> Some (json_session s))"

text \<open>
  The sessions file of the file-backed stores. \<open>fs.readFileSync\<close> followed by
  \<open>JSON.parse\<close> has four outcomes that the stores tell apart: there is no file, the text
  is not JSON, the text is the JSON value \<open>null\<close>, the text is a JSON object of sessions.
  (Other top-level JSON values are not modelled.)
\<close>

datatype file_content = NotJson | JsonNull | JsonObject sessions

type_synonym sessions_file = "file_content option"

text \<open>\<open>FileSessionStore._read\<close> (scenes.js): \<open>JSON.parse(fs.readFileSync(...))\<close>, unguarded.\<close>

fun FileSessionStore_read :: "sessions_file \<Rightarrow> error + file_content" where
  "FileSessionStore_read None = Inl ENOENT"
| "FileSessionStore_read (Some NotJson) = Inl SyntaxError"
| "FileSessionStore_read (Some c) = Inr c"

text \<open>
  The constructor of \<open>FileSessionStore\<close>:
  \<open>if (!fs.existsSync(this.filePath)) fs.writeFileSync(this.filePath, '{}')\<close>. A file that
  is already there is left as it is.
\<close>

fun new_FileSessionStore :: "sessions_file \<Rightarrow> sessions_file" where
  "new_FileSessionStore None = Some (JsonObject Map.empty)"
| "new_FileSessionStore (Some c) = Some c"

text \<open>Indexing the parsed file: \<open>sessions[id]\<close> throws on \<open>null\<close>.\<close>

fun index_sessions :: "file_content \<Rightarrow> string \<Rightarrow> error + session option" where
  "index_sessions (JsonObject ss) uid = Inr (ss uid)"
| "index_sessions JsonNull uid = Inl TypeError"
| "index_sessions NotJson uid = Inl SyntaxError"

definition or_empty :: "session option \<Rightarrow> session" where
  "or_empty r = (case r of Some s \<Rightarrow> s | None \<Rightarrow> Map.empty)"

definition FileSessionStore_get :: "sessions_file \<Rightarrow> string \<Rightarrow> error + session" where
  "FileSessionStore_get f uid =
     (case FileSessionStore_read f of
        Inl e \<Rightarrow> Inl e
      | Inr sessions \<Rightarrow>
          (case index_sessions sessions uid of
             Inl e \<Rightarrow> Inl e
           | Inr r \<Rightarrow> Inr (or_empty r)))"

text \<open>\<open>sessions[id] = session\<close> on the parsed file; assigning a property of \<open>null\<close> throws.\<close>

fun assign_session :: "file_content \<Rightarrow> string \<Rightarrow> session \<Rightarrow> error + file_content" where
  "assign_session (JsonObject ss) uid s = Inr (JsonObject (ss(uid \<mapsto> s)))"
| "assign_session JsonNull uid s = Inl TypeError"
| "assign_session NotJson uid s = Inl SyntaxError"

text \<open>
  \<open>FileSessionStore._write\<close>: \<open>fs.writeFileSync(this.filePath, JSON.stringify(sessions,
  null, 2))\<close>. The file then holds what \<open>JSON.stringify\<close> kept of the whole object.
\<close>

fun FileSessionStore_write :: "file_content \<Rightarrow> sessions_file" where
  "FileSessionStore_write (JsonObject ss) = Some (JsonObject (json_sessions ss))"
| "FileSessionStore_write c = Some c"

definition FileSessionStore_set :: "sessions_file \<Rightarrow> string \<Rightarrow> session \<Rightarrow> (error + unit) \<times> sessions_file" where
  "FileSessionStore_set f uid s =
     (case FileSessionStore_read f of
        Inl e \<Rightarrow> (Inl e, f)
      | Inr sessions \<Rightarrow>
          (case assign_session sessions uid s of
             Inl e \<Rightarrow> (Inl e, f)
           | Inr sessions' \<Rightarrow> (Inr (), FileSessionStore_write sessions')))"

text \<open>
  \<open>readSessions\<close> (sessionStore.js): "Safely read sessions from file": no file and
  unparsable text both give the empty object.
\<close>

fun readSessions :: "sessions_file \<Rightarrow> file_content" where
  "readSessions None = JsonObject Map.empty"
| "readSessions (Some NotJson) = JsonObject Map.empty"
| "readSessions (Some c) = c"

definition sessionStore_get :: "sessions_file \<Rightarrow> string \<Rightarrow> error + session" where
  "sessionStore_get f uid =
     (case index_sessions (readSessions f) uid of
        Inl e \<Rightarrow> Inl e
      | Inr r \<Rightarrow> Inr (or_empty r))"

text \<open>
  A store as a scene manager holds it: \<open>sessionStoreType === 'file'\<close> selects the
  file-backed one, anything else the in-memory one.
\<close>

datatype store = MemoryStore sessions | FileStore sessions_file

fun store_get :: "store \<Rightarrow> string \<Rightarrow> error + session" where
  "store_get (MemoryStore ss) uid = MemorySessionStore_get ss uid"
| "store_get (FileStore f) uid = FileSessionStore_get f uid"

fun store_set :: "store \<Rightarrow> string \<Rightarrow> session \<Rightarrow> (error + unit) \<times> store" where
  "store_set (MemoryStore ss) uid s =
     (case MemorySessionStore_set ss uid s of (r, ss') \<Rightarrow> (r, MemoryStore ss'))"
| "store_set (FileStore f) uid s =
     (case FileSessionStore_set f uid s of (r, f') \<Rightarrow> (r, FileStore f'))"

section \<open>Program state\<close>

text \<open>
  What one pass over an event works on: the context object, the session store of the
  scene manager, and \<open>index\<close>, the local variable of the running \<open>runMiddlewares\<close>
  call. \<open>calls\<close> is a ghost log of what was invoked, in order; the program never reads
  it and user callbacks, which see the context only, cannot change it.
\<close>

datatype event =
    StepCall string nat
  | MwStart nat
  | MwNext nat
  | MwThrew nat error
  | ErrorHandler error
  | Called string

record state =
  ctx :: ctx
  sessionStore :: store
  index :: int
  calls :: "event list"

text \<open>Adding an entry to the log.\<close>

definition logged :: "event \<Rightarrow> state \<Rightarrow> state" where
  "logged ev st = st\<lparr>calls := calls st @ [ev]\<rparr>"

text \<open>Calling a user callback on the context, logged under \<open>ev\<close>.\<close>

definition invoke :: "event \<Rightarrow> callback \<Rightarrow> state \<Rightarrow> (error + jsval) \<times> state" where
  "invoke ev f st =
     (case f (ctx st) of (r, c') \<Rightarrow> (r, st\<lparr>ctx := c', calls := calls st @ [ev]\<rparr>))"

section \<open>Scenes (scenes.js)\<close>

record scene =
  name :: string
  steps :: "callback list"

text \<open>
  \<open>Scene.leave\<close>: every key of the session is deleted, the scene reference is reset to
  \<open>null\<close> and the context is flagged as stopped. \<open>leave_ctx\<close> is its effect on the
  context, for step functions that call \<open>ctx.scene.leave(ctx)\<close> themselves.
\<close>

definition leave_ctx :: "ctx \<Rightarrow> ctx" where
  "leave_ctx c = c\<lparr>session := Map.empty, scene := None, sceneStopped := True\<rparr>"

definition leave :: "state \<Rightarrow> (error + unit) \<times> state" where
  "leave st = (Inr (), st\<lparr>ctx := leave_ctx (ctx st)\<rparr>)"

text \<open>\<open>typeof ctx.session.step === 'number' ? ctx.session.step : 0\<close>\<close>

definition step_index :: "ctx \<Rightarrow> int" where
  "step_index c = (case get_prop (session c) ''step'' of JNum n \<Rightarrow> n | _ \<Rightarrow> 0)"

text \<open>
  \<open>Scene.handle\<close>. \<open>this.steps[step]\<close> at a negative index is \<open>undefined\<close>, and calling
  it throws a \<open>TypeError\<close>. The guard of the auto-increment reads the session and the text
  after the step function has run; \<open>===\<close> holds only for the number \<open>prevStep\<close>, so the
  \<open>++\<close> always acts on a number.
\<close>

definition handle :: "scene \<Rightarrow> state \<Rightarrow> (error + unit) \<times> state" where
  "handle sc st =
     (let step = step_index (ctx st) in
      if step < int (length (steps sc)) then
        (let prevStep = step in
         if step < 0 then (Inl TypeError, st)
         else
           (case invoke (StepCall (name sc) (nat step)) (steps sc ! nat step) st of
              (Inl e, st') \<Rightarrow> (Inl e, st')
            | (Inr result, st') \<Rightarrow>
                if get_prop (session (ctx st')) ''step'' = JNum prevStep
                   \<and> truthy_str (ctx_text (ctx st')) \<and> result \<noteq> JBool False
                then (Inr (), st'\<lparr>ctx := (ctx st')\<lparr>session :=
                        (session (ctx st'))(''step'' \<mapsto> JNum (prevStep + 1))\<rparr>\<rparr>)
                else (Inr (), st')))
      else leave st)"

text \<open>\<open>Scene.enter\<close>\<close>

definition enter :: "scene \<Rightarrow> state \<Rightarrow> (error + unit) \<times> state" where
  "enter sc st =
     handle sc (st\<lparr>ctx := (ctx st)\<lparr>session :=
        (session (ctx st))(''__scene'' \<mapsto> JStr (name sc), ''step'' \<mapsto> JNum 0),
        scene := Some (name sc)\<rparr>\<rparr>)"

section \<open>The scene manager (scenes.js)\<close>

record sceneManager =
  scenes :: "string \<rightharpoonup> scene"

text \<open>\<open>SceneManager.register\<close>: \<open>this.scenes[scene.name] = scene\<close>, the last write wins.\<close>

definition register :: "scene \<Rightarrow> sceneManager \<Rightarrow> sceneManager" where
  "register sc mgr = mgr\<lparr>scenes := (scenes mgr)(name sc \<mapsto> sc)\<rparr>"

text \<open>A value used as a property key is converted to a string.\<close>

fun show_nat :: "nat \<Rightarrow> string" where
  "show_nat n =
     (if n < 10 then [''0123456789'' ! n]
      else show_nat (n div 10) @ [''0123456789'' ! (n mod 10)])"

fun to_key :: "jsval \<Rightarrow> string" where
  "to_key JUndefined = ''undefined''"
| "to_key JNull = ''null''"
| "to_key (JBool b) = (if b then ''true'' else ''false'')"
| "to_key (JNum n) = (if n < 0 then CHR ''-'' # show_nat (nat (- n)) else show_nat (nat n))"
| "to_key (JStr s) = s"
| "to_key (JObj kvs) = ''[object Object]''"

text \<open>\<open>ctx.chat?.id || ctx.from?.id || 'default'\<close>\<close>

definition derive_id :: "ctx \<Rightarrow> string" where
  "derive_id c =
     (if truthy_str (chat_id c) then the (chat_id c)
      else if truthy_str (from_id c) then the (from_id c)
      else ''default'')"

text \<open>
  The scene that \<open>sceneName && this.scenes[sceneName] && !ctx._sceneStopped\<close> selects,
  if the condition holds.
\<close>

definition active_scene :: "sceneManager \<Rightarrow> ctx \<Rightarrow> scene option" where
  "active_scene mgr c =
     (let sceneName = get_prop (session c) ''__scene'' in
      if truthy sceneName \<and> \<not> sceneStopped c then scenes mgr (to_key sceneName) else None)"

text \<open>
  The two paths of the manager's middleware: the active scene's \<open>handle\<close>, or the
  continuation \<open>next\<close> of the chain when no scene handled the event.
\<close>

definition resume_or_next ::
  "sceneManager \<Rightarrow> (state \<Rightarrow> (error + unit) \<times> state) \<Rightarrow> state \<Rightarrow> (error + unit) \<times> state" where
  "resume_or_next mgr nxt st =
     (case active_scene mgr (ctx st) of
        Some sc \<Rightarrow> handle sc (st\<lparr>ctx := (ctx st)\<lparr>scene := Some (name sc)\<rparr>\<rparr>)
      | None \<Rightarrow> nxt st)"

text \<open>
  \<open>SceneManager.middleware\<close>: load the session, take one of the two paths, save the
  session. An error thrown on the way leaves the function at once (there is no
  \<open>finally\<close>). The in-memory store hands out the stored object itself; the model copies
  it, which differs only in what the store holds while a path is running or after it
  has thrown.
\<close>

definition middleware ::
  "sceneManager \<Rightarrow> (state \<Rightarrow> (error + unit) \<times> state) \<Rightarrow> state \<Rightarrow> (error + unit) \<times> state" where
  "middleware mgr nxt st =
     (let uid = derive_id (ctx st) in
      case store_get (sessionStore st) uid of
        Inl e \<Rightarrow> (Inl e, st)
      | Inr s \<Rightarrow>
          (case resume_or_next mgr nxt (st\<lparr>ctx := (ctx st)\<lparr>session := s\<rparr>\<rparr>) of
             (Inl e, st') \<Rightarrow> (Inl e, st')
           | (Inr u, st') \<Rightarrow>
               (case store_set (sessionStore st') uid (session (ctx st')) of
                  (r, store') \<Rightarrow> (r, st'\<lparr>sessionStore := store'\<rparr>))))"

section \<open>The middleware chain (index.js)\<close>

text \<open>
  A middleware is user code that receives the context and the continuation \<open>next\<close>.
  Its body is a program over these: it updates the context, calls \<open>next\<close> (awaiting
  it), throws, runs one part after another, branches on the context, or guards a part
  with \<open>try\<close>/\<open>catch\<close>.
\<close>

datatype mw =
    Skip
  | Act "ctx \<Rightarrow> ctx"
  | Next
  | Raise error
  | Seq mw mw
  | Cond "ctx \<Rightarrow> bool" mw mw
  | Try mw mw

fun exec :: "mw \<Rightarrow> (state \<Rightarrow> (error + unit) \<times> state) \<Rightarrow> state \<Rightarrow> (error + unit) \<times> state" where
  "exec Skip nxt st = (Inr (), st)"
| "exec (Act f) nxt st = (Inr (), st\<lparr>ctx := f (ctx st)\<rparr>)"
| "exec Next nxt st = nxt st"
| "exec (Raise e) nxt st = (Inl e, st)"
| "exec (Seq p q) nxt st =
     (case exec p nxt st of
        (Inl e, st') \<Rightarrow> (Inl e, st')
      | (Inr u, st') \<Rightarrow> exec q nxt st')"
| "exec (Cond b p q) nxt st = (if b (ctx st) then exec p nxt st else exec q nxt st)"
| "exec (Try p q) nxt st =
     (case exec p nxt st of
        (Inl e, st') \<Rightarrow> exec q nxt st'
      | (Inr u, st') \<Rightarrow> (Inr u, st'))"

text \<open>The global error handler, \<open>(err, ctx) => ...\<close>.\<close>

type_synonym error_handler = "error \<Rightarrow> callback"

text \<open>
  The \<open>catch\<close> block of \<open>runner\<close>: the error goes to the error handler if there is one,
  and is thrown again otherwise.
\<close>

definition catch_block :: "error_handler option \<Rightarrow> nat \<Rightarrow> error \<Rightarrow> state \<Rightarrow> (error + unit) \<times> state" where
  "catch_block eh i err st =
     (let st1 = st\<lparr>calls := calls st @ [MwThrew i err]\<rparr> in
      case eh of
        Some h \<Rightarrow>
          (case invoke (ErrorHandler err) (h err) st1 of
             (Inl e', st2) \<Rightarrow> (Inl e', st2)
           | (Inr v, st2) \<Rightarrow> (Inr (), st2))
      | None \<Rightarrow> (Inl err, st1))"

text \<open>
  \<open>runner\<close> of \<open>runMiddlewares\<close>: \<open>if (i <= index) return; index = i\<close>, then
  \<open>this.middlewares[i]\<close>, if there is one, runs with \<open>() => runner(i + 1)\<close> as its
  \<open>next\<close>. Each call that middleware \<open>i\<close> makes of this closure is logged as
  \<open>MwNext i\<close>, each start of a middleware as \<open>MwStart i\<close>.
\<close>

function runner :: "mw list \<Rightarrow> error_handler option \<Rightarrow> nat \<Rightarrow> state \<Rightarrow> (error + unit) \<times> state" where
  "runner mws eh i st =
     (if int i \<le> index st then (Inr (), st)
      else
        (let st1 = st\<lparr>index := int i\<rparr> in
         if i < length mws then
           (case exec (mws ! i) (\<lambda>s. runner mws eh (i + 1) (logged (MwNext i) s))
                   (logged (MwStart i) st1) of
              (Inl err, st2) \<Rightarrow> catch_block eh i err st2
            | (Inr u, st2) \<Rightarrow> (Inr (), st2))
         else (Inr (), st1)))"
  by pat_completeness auto
termination
  by (relation "measure (\<lambda>(mws, eh, i, st). length mws - i)") auto

section \<open>The bot (index.js)\<close>

text \<open>
  An entry of \<open>this.handlers.message\<close>, \<open>this.handlers.postback\<close> or \<open>this.actions\<close>:
  a function of the context, either a user callback or the closure that \<open>hears\<close> or
  \<open>command\<close> builds around one.
\<close>

type_synonym handler = "state \<Rightarrow> (error + jsval) \<times> state"

record bot =
  handlers_message :: "handler list"
  handlers_postback :: "handler list"
  middlewares :: "mw list"
  actions :: "string \<rightharpoonup> handler"
  errorHandler :: "error_handler option"

text \<open>The registries as the constructor leaves them.\<close>

definition new_bot :: bot where
  "new_bot = \<lparr>handlers_message = [], handlers_postback = [], middlewares = [],
              actions = Map.empty, errorHandler = None\<rparr>"

text \<open>A user callback registered under a label; calling it is logged as \<open>Called\<close>.\<close>

definition listener :: "string \<Rightarrow> callback \<Rightarrow> handler" where
  "listener label f = invoke (Called label) f"

text \<open>\<open>on(event, fn)\<close>: \<open>if (this.handlers[event]) this.handlers[event].push(fn)\<close>\<close>

definition on :: "string \<Rightarrow> handler \<Rightarrow> bot \<Rightarrow> bot" where
  "on ev fn b =
     (if ev = ''message'' then b\<lparr>handlers_message := handlers_message b @ [fn]\<rparr>
      else if ev = ''postback'' then b\<lparr>handlers_postback := handlers_postback b @ [fn]\<rparr>
      else b)"

text \<open>\<open>use(fn)\<close> and \<open>catch(fn)\<close>\<close>

definition use :: "mw \<Rightarrow> bot \<Rightarrow> bot" where
  "use fn b = b\<lparr>middlewares := middlewares b @ [fn]\<rparr>"


text \<open>
  A trigger of \<open>hears\<close> or \<open>command\<close>: a string, a \<open>RegExp\<close> (its \<open>test\<close> as a
  predicate on the text), or some other value, which matches nothing.
\<close>

datatype pattern = PString string | PRegExp "string \<Rightarrow> bool" | POther

text \<open>\<open>String.prototype.includes\<close>\<close>

fun starts_with :: "string \<Rightarrow> string \<Rightarrow> bool" where
  "starts_with t [] = True"
| "starts_with [] (c # p) = False"
| "starts_with (a # t) (c # p) = (a = c \<and> starts_with t p)"

fun str_includes :: "string \<Rightarrow> string \<Rightarrow> bool" where
  "str_includes [] p = (p = [])"
| "str_includes (a # t) p = (starts_with (a # t) p \<or> str_includes t p)"

fun hears_match :: "pattern \<Rightarrow> string \<Rightarrow> bool" where
  "hears_match (PString p) t = str_includes t p"
| "hears_match (PRegExp r) t = r t"
| "hears_match POther t = False"

fun command_match :: "pattern \<Rightarrow> string \<Rightarrow> bool" where
  "command_match (PString cmd) t = (t = cmd)"
| "command_match (PRegExp r) t = r t"
| "command_match POther t = False"

text \<open>
  The closure of \<open>hears\<close> and of \<open>command\<close>: on a text, the first trigger that matches
  calls \<open>fn\<close> and returns \<open>true\<close>; otherwise the closure returns \<open>false\<close>.
\<close>

fun first_match :: "(pattern \<Rightarrow> string \<Rightarrow> bool) \<Rightarrow> pattern list \<Rightarrow> handler \<Rightarrow> string \<Rightarrow> handler" where
  "first_match m [] fn t st = (Inr (JBool False), st)"
| "first_match m (p # ps) fn t st =
     (if m p t then
        (case fn st of
           (Inl e, st') \<Rightarrow> (Inl e, st')
         | (Inr v, st') \<Rightarrow> (Inr (JBool True), st'))
      else first_match m ps fn t st)"

definition on_text :: "(pattern \<Rightarrow> string \<Rightarrow> bool) \<Rightarrow> pattern list \<Rightarrow> handler \<Rightarrow> handler" where
  "on_text m arr fn st =
     (if truthy_str (ctx_text (ctx st)) then first_match m arr fn (the (ctx_text (ctx st))) st
      else (Inr (JBool False), st))"

definition hears :: "pattern list \<Rightarrow> handler \<Rightarrow> bot \<Rightarrow> bot" where
  "hears patterns fn b = on ''message'' (on_text hears_match patterns fn) b"

definition command :: "pattern list \<Rightarrow> handler \<Rightarrow> bot \<Rightarrow> bot" where
  "command cmds fn b = on ''message'' (on_text command_match cmds fn) b"

text \<open>\<open>action(payloads, fn)\<close>: \<open>this.actions[payload] = fn\<close> for each payload.\<close>

fun action :: "string list \<Rightarrow> handler \<Rightarrow> bot \<Rightarrow> bot" where
  "action [] fn b = b"
| "action (payload # arr) fn b = action arr fn (b\<lparr>actions := (actions b)(payload \<mapsto> fn)\<rparr>)"

text \<open>\<open>runMiddlewares\<close>: \<open>let index = -1\<close>, then \<open>runner(0)\<close>.\<close>

definition runMiddlewares :: "bot \<Rightarrow> state \<Rightarrow> (error + unit) \<times> state" where
  "runMiddlewares b st = runner (middlewares b) (errorHandler b) 0 (st\<lparr>index := - 1\<rparr>)"

text \<open>
  The event of a webhook entry, as far as the dispatch reads it: \<open>event.message.text\<close>
  (absent when there is no message or no text) and the payload of \<open>event.postback\<close>
  (absent when there is no postback).
\<close>

record webhook_event =
  message_text :: "string option"
  postback :: "string option"

text \<open>\<open>if (result === true) handled = true\<close>\<close>

definition mark :: "jsval \<Rightarrow> bool \<Rightarrow> bool" where
  "mark result handled = (if result = JBool True then True else handled)"

text \<open>
  The loops \<open>for (const fn of this.handlers...) if (!handled) { ... }\<close> of the webhook
  handler.
\<close>

fun run_handlers :: "handler list \<Rightarrow> bool \<Rightarrow> state \<Rightarrow> (error + bool) \<times> state" where
  "run_handlers [] handled st = (Inr handled, st)"
| "run_handlers (fn # fns) handled st =
     (if \<not> handled then
        (case fn st of
           (Inl e, st') \<Rightarrow> (Inl e, st')
         | (Inr result, st') \<Rightarrow> run_handlers fns (mark result handled) st')
      else run_handlers fns handled st)"

text \<open>The block "Handle messages" of the webhook handler.\<close>

definition handle_messages :: "bot \<Rightarrow> webhook_event \<Rightarrow> bool \<Rightarrow> state \<Rightarrow> (error + bool) \<times> state" where
  "handle_messages b ev handled st =
     (if truthy_str (message_text ev) then run_handlers (handlers_message b) handled st
      else (Inr handled, st))"

text \<open>The block "Handle postbacks" of the webhook handler.\<close>

definition handle_postbacks :: "bot \<Rightarrow> webhook_event \<Rightarrow> bool \<Rightarrow> state \<Rightarrow> (error + bool) \<times> state" where
  "handle_postbacks b ev handled st =
     (case postback ev of
        None \<Rightarrow> (Inr handled, st)
      | Some payload \<Rightarrow>
          (case actions b payload of
             None \<Rightarrow> run_handlers (handlers_postback b) handled st
           | Some fn \<Rightarrow>
               (case fn st of
                  (Inl e, st') \<Rightarrow> (Inl e, st')
                | (Inr result, st') \<Rightarrow>
                    run_handlers (handlers_postback b) (mark result handled) st')))"

text \<open>
  What the webhook handler does with one event between loading and saving the session:
  \<open>await this.runMiddlewares(ctx)\<close>, \<open>let handled = false\<close>, the messages, the
  postbacks. An error that leaves \<open>runMiddlewares\<close> or a handler leaves the whole
  handler.
\<close>

definition dispatch :: "bot \<Rightarrow> webhook_event \<Rightarrow> state \<Rightarrow> (error + bool) \<times> state" where
  "dispatch b ev st =
     (case handle_messages b ev False st of
        (Inl e, st') \<Rightarrow> (Inl e, st')
      | (Inr handled, st') \<Rightarrow> handle_postbacks b ev handled st')"

definition process_event :: "bot \<Rightarrow> webhook_event \<Rightarrow> state \<Rightarrow> (error + bool) \<times> state" where
  "process_event b ev st =
     (case runMiddlewares b st of
        (Inl e, st') \<Rightarrow> (Inl e, st')
      | (Inr u, st') \<Rightarrow> dispatch b ev st')"

section \<open>Reading the log\<close>

text \<open>
  The middleware indices that started to run, and the errors that \<open>runner\<close> caught, in
  the order of the log.
\<close>

fun mw_starts :: "event list \<Rightarrow> nat list" where
  "mw_starts [] = []"
| "mw_starts (MwStart i # es) = i # mw_starts es"
| "mw_starts (e # es) = mw_starts es"

fun thrown :: "event list \<Rightarrow> error list" where
  "thrown [] = []"
| "thrown (MwThrew i e # es) = e # thrown es"
| "thrown (ev # es) = thrown es"

text \<open>No middleware starts after a middleware has thrown.\<close>

fun no_resume :: "event list \<Rightarrow> bool" where
  "no_resume [] = True"
| "no_resume (MwThrew i e # es) = (mw_starts es = [] \<and> no_resume es)"
| "no_resume (ev # es) = no_resume es"


text \<open>What a run from \<open>st\<close> to \<open>st'\<close> added to the log.\<close>

definition new_calls :: "state \<Rightarrow> state \<Rightarrow> event list" where
  "new_calls st st' = drop (length (calls st)) (calls st')"

text \<open>A middleware whose body has a call of \<open>next\<close>; one that catches errors.\<close>

fun calls_next :: "mw \<Rightarrow> bool" where
  "calls_next Skip = False"
| "calls_next (Act f) = False"
| "calls_next Next = True"
| "calls_next (Raise e) = False"
| "calls_next (Seq p q) = (calls_next p \<or> calls_next q)"
| "calls_next (Cond b p q) = (calls_next p \<or> calls_next q)"
| "calls_next (Try p q) = (calls_next p \<or> calls_next q)"


text \<open>Invariants of a run of the chain that started in \<open>st0\<close>.\<close>

definition once_inv :: "state \<Rightarrow> state \<Rightarrow> bool" where
  "once_inv st0 st =
     (\<exists>new. calls st = calls st0 @ new \<and> distinct (mw_starts new)
        \<and> (\<forall>i\<in>set (mw_starts new). int i \<le> index st))"


definition lvl_ok :: "nat \<Rightarrow> state \<Rightarrow> state \<Rightarrow> bool" where
  "lvl_ok i st st' =
     (\<exists>new. calls st' = calls st @ new \<and> index st \<le> index st'
        \<and> ((mw_starts new = [] \<and> thrown new = [])
           \<or> (index st < int i + 1 \<and> int i + 1 \<le> index st' \<and> no_resume new)))"


text \<open>
  As soon as \<open>index\<close> is above \<open>k\<close> or a middleware above \<open>k\<close> has started, middleware
  \<open>k\<close> has called \<open>next\<close>.
\<close>

definition next_inv :: "nat \<Rightarrow> state \<Rightarrow> state \<Rightarrow> bool" where
  "next_inv k st0 st =
     (\<exists>new. calls st = calls st0 @ new
        \<and> (((\<exists>j\<in>set (mw_starts new). k < j) \<or> int k < index st) \<longrightarrow> MwNext k \<in> set new))"

definition next_seen :: "nat \<Rightarrow> state \<Rightarrow> state \<Rightarrow> bool" where
  "next_seen k st0 st = (\<exists>new. calls st = calls st0 @ new \<and> MwNext k \<in> set new)"

text \<open>
  What a store gives back for a session it was given: the in-memory store the session
  itself, the file-backed store what the JSON file keeps of it.
\<close>

fun persisted :: "store \<Rightarrow> session \<Rightarrow> session" where
  "persisted (MemoryStore ss) s = s"
| "persisted (FileStore f) s = json_session s"

section \<open>Sample scenes, bots and events\<close>

text \<open>The \<open>Context\<close> constructor (context.js), for the sender of an event.\<close>

definition new_Context :: "webhook_event \<Rightarrow> string \<Rightarrow> ctx" where
  "new_Context ev senderId =
     \<lparr>chat_id = Some senderId, from_id = None, ctx_text = message_text ev,
      session = Map.empty, scene = None, sceneStopped = False\<rparr>"

definition fresh :: "webhook_event \<Rightarrow> state" where
  "fresh ev = \<lparr>ctx = new_Context ev ''u1'', sessionStore = MemoryStore Map.empty,
               index = - 1, calls = []\<rparr>"

text \<open>
  A registration scene of two steps: the first prompts, the second accepts the age
  \<open>42\<close> only and answers \<open>false\<close> to anything else.
\<close>

definition ask_name :: callback where
  "ask_name c = (Inr JUndefined, c)"

definition ask_age :: callback where
  "ask_age c =
     (if ctx_text c = Some ''42''
      then (Inr JUndefined, c)
      else (Inr (JBool False), c))"

definition wizard :: scene where
  "wizard = \<lparr>name = ''registration'', steps = [ask_name, ask_age]\<rparr>"

text \<open>
  A scene whose only step leaves the scene itself, and a scene of two steps whose first
  step sets the step index to the step count.
\<close>

definition jump_to_end :: callback where
  "jump_to_end c = (Inr JUndefined, c\<lparr>session := (session c)(''step'' \<mapsto> JNum 2)\<rparr>)"

definition shortcut :: scene where
  "shortcut = \<lparr>name = ''shortcut'', steps = [jump_to_end, ask_age]\<rparr>"


definition finish :: callback where
  "finish c = (Inr JUndefined, leave_ctx c)"

definition farewell :: scene where
  "farewell = \<lparr>name = ''farewell'', steps = [finish]\<rparr>"

text \<open>The state of a user who is at step \<open>n\<close> of a scene and sends the text \<open>t\<close>.\<close>

definition at_step :: "string \<Rightarrow> int \<Rightarrow> string \<Rightarrow> state" where
  "at_step nm n t =
     \<lparr>ctx = \<lparr>chat_id = Some ''u1'', from_id = None, ctx_text = Some t,
             session = [''__scene'' \<mapsto> JStr nm, ''step'' \<mapsto> JNum n],
             scene = Some nm, sceneStopped = False\<rparr>,
      sessionStore = MemoryStore Map.empty, index = - 1, calls = []\<rparr>"

text \<open>The same user with a session that has a scene name but no step index.\<close>

definition no_step :: "string \<Rightarrow> string \<Rightarrow> state" where
  "no_step nm t =
     \<lparr>ctx = \<lparr>chat_id = Some ''u1'', from_id = None, ctx_text = Some t,
             session = [''__scene'' \<mapsto> JStr nm],
             scene = Some nm, sceneStopped = False\<rparr>,
      sessionStore = MemoryStore Map.empty, index = - 1, calls = []\<rparr>"

text \<open>
  A scene manager with the registration scene, a continuation that does nothing, and
  the state of an event from user \<open>u1\<close> whose session is in the manager's in-memory
  store.
\<close>

definition stage :: sceneManager where
  "stage = register wizard \<lparr>scenes = Map.empty\<rparr>"

definition proceed :: "state \<Rightarrow> (error + unit) \<times> state" where
  "proceed st = (Inr (), st)"

definition stored :: "session \<Rightarrow> string \<Rightarrow> state" where
  "stored s t =
     \<lparr>ctx = \<lparr>chat_id = Some ''u1'', from_id = None, ctx_text = Some t,
             session = Map.empty, scene = None, sceneStopped = False\<rparr>,
      sessionStore = MemoryStore [''u1'' \<mapsto> s], index = - 1, calls = []\<rparr>"

definition mid_registration :: session where
  "mid_registration = [''__scene'' \<mapsto> JStr ''registration'', ''step'' \<mapsto> JNum 1]"

definition remember :: "state \<Rightarrow> (error + unit) \<times> state" where
  "remember st = (Inr (), st\<lparr>ctx := (ctx st)\<lparr>session := (session (ctx st))(''seen'' \<mapsto> JBool True)\<rparr>\<rparr>)"

text \<open>
  Two callbacks that reply and log, the closure \<open>hears("hi", ...)\<close> builds, and the bot
  of the scenario: \<open>hears("hi")\<close> registered first, \<open>on('message', logFn)\<close> second.
  \<open>observer\<close> registers them the other way round.
\<close>

definition reply_hi :: callback where
  "reply_hi c = (Inr JUndefined, c)"

definition log_fn :: callback where
  "log_fn c = (Inr JUndefined, c)"

definition hears_hi :: handler where
  "hears_hi = on_text hears_match [PString ''hi''] (listener ''hears'' reply_hi)"

definition greeter :: bot where
  "greeter = on ''message'' (listener ''logFn'' log_fn)
               (hears [PString ''hi''] (listener ''hears'' reply_hi) new_bot)"

definition observer :: bot where
  "observer = hears [PString ''hi''] (listener ''hears'' reply_hi)
                (on ''message'' (listener ''logFn'' log_fn) new_bot)"

definition hi_there :: webhook_event where
  "hi_there = \<lparr>message_text = Some ''hi there'', postback = None\<rparr>"

definition good_day :: webhook_event where
  "good_day = \<lparr>message_text = Some ''good day'', postback = None\<rparr>"

text \<open>
  A bot whose first middleware never calls \<open>next\<close>; one whose first middleware calls
  it twice; one whose second middleware throws, without and with an error handler.
\<close>

definition gatekeeper :: bot where
  "gatekeeper = on ''message'' (listener ''logFn'' log_fn) (use Next (use Skip new_bot))"

definition eager :: bot where
  "eager = use Next (use (Seq Next Next) new_bot)"



text \<open>
  A middleware that calls \<open>next\<close> only when the session names no scene, a bot with it
  in front of a second middleware, and the state of an event of a user who is in a
  scene.
\<close>

definition in_scene :: "ctx \<Rightarrow> bool" where
  "in_scene c = (session c ''__scene'' \<noteq> None)"

definition scene_gate :: mw where
  "scene_gate = Cond in_scene Skip Next"

definition staged :: bot where
  "staged = on ''message'' (listener ''logFn'' log_fn) (use Next (use scene_gate new_bot))"

definition resumed :: state where
  "resumed = \<lparr>ctx = \<lparr>chat_id = Some ''u1'', from_id = None, ctx_text = Some ''hi there'',
                     session = mid_registration, scene = None, sceneStopped = False\<rparr>,
               sessionStore = MemoryStore Map.empty, index = - 1, calls = []\<rparr>"



section \<open>The middleware chain: lemmas\<close>

declare runner.simps [simp del]

lemma mw_starts_append: "mw_starts (a @ b) = mw_starts a @ mw_starts b"
  by (induction a rule: mw_starts.induct) auto

lemma thrown_append: "thrown (a @ b) = thrown a @ thrown b"
  by (induction a rule: thrown.induct) auto

lemma no_resume_append: "mw_starts b = [] \<Longrightarrow> no_resume (a @ b) = no_resume a"
proof (induction a rule: no_resume.induct)
  case 1
  then show ?case by (induction b rule: no_resume.induct) auto
qed (auto simp: mw_starts_append)

lemma no_resume_quiet: "thrown a = [] \<Longrightarrow> no_resume (a @ b) = no_resume b"
  by (induction a rule: thrown.induct) auto

lemma runner_guard: "int j \<le> index s \<Longrightarrow> runner mws eh j s = (Inr (), s)"
  by (simp add: runner.simps)

lemma runner_unfold:
  "\<not> int i \<le> index st \<Longrightarrow> i < length mws \<Longrightarrow>
     runner mws eh i st =
       (case exec (mws ! i) (\<lambda>s. runner mws eh (i + 1) (logged (MwNext i) s))
               (st\<lparr>index := int i, calls := calls st @ [MwStart i]\<rparr>) of
          (Inl err, st2) \<Rightarrow> catch_block eh i err st2
        | (Inr u, st2) \<Rightarrow> (Inr (), st2))"
  by (simp add: runner.simps[of mws eh i st] Let_def logged_def)

lemma runner_beyond:
  "\<not> int i \<le> index st \<Longrightarrow> \<not> i < length mws \<Longrightarrow>
     runner mws eh i st = (Inr (), st\<lparr>index := int i\<rparr>)"
  by (simp add: runner.simps[of mws eh i st] Let_def)


text \<open>Generic: exec preserves any invariant that next preserves and that ignores the context.\<close>

lemma exec_preserves:
  assumes nxt: "\<And>x. I x \<Longrightarrow> I (snd (nxt x))"
    and upd: "\<And>x f. I x \<Longrightarrow> I (x\<lparr>ctx := f (ctx x)\<rparr>)"
    and "I st"
  shows "I (snd (exec p nxt st))"
  using \<open>I st\<close>
proof (induction p arbitrary: st)
  case (Seq p q)
  then show ?case by (auto split: prod.splits sum.splits) (metis snd_conv)+
next
  case (Try p q)
  then show ?case by (auto split: prod.splits sum.splits) (metis snd_conv)+
qed (auto simp: nxt upd)

lemma catch_block_calls:
  "\<exists>es. calls (snd (catch_block eh i err st)) = calls st @ MwThrew i err # es \<and> mw_starts es = []
     \<and> thrown es = []
     \<and> (case eh of None \<Rightarrow> es = [] \<and> fst (catch_block eh i err st) = Inl err
         | Some h \<Rightarrow> es = [ErrorHandler err])"
  by (auto simp: catch_block_def invoke_def Let_def split: option.splits prod.splits sum.splits)

lemma catch_block_index: "index (snd (catch_block eh i err st)) = index st"
  by (auto simp: catch_block_def invoke_def Let_def split: option.splits prod.splits sum.splits)

lemma once_inv_ctx: "once_inv st0 x \<Longrightarrow> once_inv st0 (x\<lparr>ctx := c\<rparr>)"
  by (auto simp: once_inv_def)

lemma once_inv_start:
  assumes "once_inv st0 st" and "\<not> int i \<le> index st"
  shows "once_inv st0 (st\<lparr>index := int i, calls := calls st @ [MwStart i]\<rparr>)"
proof -
  from assms(1) obtain new where n: "calls st = calls st0 @ new" "distinct (mw_starts new)"
    "\<forall>j\<in>set (mw_starts new). int j \<le> index st"
    by (auto simp: once_inv_def)
  have "i \<notin> set (mw_starts new)" using n(3) assms(2) by auto
  moreover have "\<forall>j\<in>set (mw_starts new). int j \<le> int i" using n(3) assms(2) by force
  ultimately show ?thesis using n(1,2)
    unfolding once_inv_def
    by (intro exI[of _ "new @ [MwStart i]"]) (auto simp: mw_starts_append)
qed

lemma once_inv_logged:
  "once_inv st0 x \<Longrightarrow> mw_starts [ev] = [] \<Longrightarrow> once_inv st0 (logged ev x)"
  unfolding once_inv_def logged_def
  by (elim exE conjE, rule_tac x = "new @ [ev]" in exI) (simp add: mw_starts_append)

lemma once_inv_index: "once_inv st0 st \<Longrightarrow> index st \<le> int i \<Longrightarrow> once_inv st0 (st\<lparr>index := int i\<rparr>)"
  by (force simp: once_inv_def)

lemma once_inv_catch:
  assumes "once_inv st0 st"
  shows "once_inv st0 (snd (catch_block eh i err st))"
proof -
  from assms obtain new where n: "calls st = calls st0 @ new" "distinct (mw_starts new)"
    "\<forall>j\<in>set (mw_starts new). int j \<le> index st"
    by (auto simp: once_inv_def)
  obtain es where es: "calls (snd (catch_block eh i err st)) = calls st @ MwThrew i err # es"
    "mw_starts es = []"
    using catch_block_calls by blast
  show ?thesis unfolding once_inv_def
    using n es catch_block_index[of eh i err st]
    by (intro exI[of _ "new @ MwThrew i err # es"]) (auto simp: mw_starts_append)
qed

lemma runner_once: "once_inv st0 st \<Longrightarrow> once_inv st0 (snd (runner mws eh i st))"
proof (induction mws eh i st rule: runner.induct)
  case (1 mws eh i st)
  show ?case
  proof (cases "int i \<le> index st")
    case True
    then show ?thesis using "1.prems" by (simp add: runner.simps)
  next
    case False
    show ?thesis
    proof (cases "i < length mws")
      case len: True
      let ?st1 = "st\<lparr>index := int i, calls := calls st @ [MwStart i]\<rparr>"
      have inv1: "once_inv st0 ?st1" using once_inv_start[OF "1.prems" False] .
      have nxt: "once_inv st0 (snd (runner mws eh (i + 1) (logged (MwNext i) x)))"
        if "once_inv st0 x" for x
        using "1.IH"[OF False refl len] once_inv_logged[OF that, of "MwNext i"] by simp
      have inv2: "once_inv st0 (snd (exec (mws ! i)
          (\<lambda>s. runner mws eh (i + 1) (logged (MwNext i) s)) ?st1))"
        by (rule exec_preserves[where I = "once_inv st0"]) (rule nxt once_inv_ctx inv1, assumption?)+
      show ?thesis
        using inv2 once_inv_catch
        by (auto simp: runner_unfold[OF False len] split: prod.splits sum.splits)
    next
      case False2: False
      then show ?thesis using False "1.prems" once_inv_index[of st0 st i]
        by (simp add: runner_beyond)
    qed
  qed
qed




lemma lvl_ok_ctx: "lvl_ok i st (st\<lparr>ctx := c\<rparr>)"
  by (simp add: lvl_ok_def)

lemma lvl_ok_refl: "lvl_ok i st st"
  by (simp add: lvl_ok_def)

lemma no_resume_no_throw: "thrown es = [] \<Longrightarrow> no_resume es"
  by (induction es rule: thrown.induct) auto

lemma lvl_ok_trans:
  assumes "lvl_ok i a b" and "lvl_ok i b c"
  shows "lvl_ok i a c"
proof -
  from assms(1) obtain n1 where 1: "calls b = calls a @ n1" "index a \<le> index b"
    "(mw_starts n1 = [] \<and> thrown n1 = [])
     \<or> (index a < int i + 1 \<and> int i + 1 \<le> index b \<and> no_resume n1)"
    by (auto simp: lvl_ok_def)
  from assms(2) obtain n2 where 2: "calls c = calls b @ n2" "index b \<le> index c"
    "(mw_starts n2 = [] \<and> thrown n2 = [])
     \<or> (index b < int i + 1 \<and> int i + 1 \<le> index c \<and> no_resume n2)"
    by (auto simp: lvl_ok_def)
  have "(mw_starts (n1 @ n2) = [] \<and> thrown (n1 @ n2) = [])
     \<or> (index a < int i + 1 \<and> int i + 1 \<le> index c \<and> no_resume (n1 @ n2))"
    using 1(2,3) 2(2,3)
    by (auto simp: mw_starts_append thrown_append no_resume_quiet no_resume_append)
  then show ?thesis unfolding lvl_ok_def
    using 1(1,2) 2(1,2) by (intro exI[of _ "n1 @ n2"]) auto
qed

lemma exec_level:
  assumes N1: "\<And>x. int i + 1 \<le> index x \<Longrightarrow> nxt x = (Inr (), logged (MwNext i) x)"
    and N2: "\<And>x. index x < int i + 1 \<Longrightarrow>
               int i + 1 \<le> index (snd (nxt x))
               \<and> (\<exists>new. calls (snd (nxt x)) = calls x @ new \<and> no_resume new)"
  shows "lvl_ok i st (snd (exec p nxt st))"
proof (induction p arbitrary: st)
  case Next
  show ?case
  proof (cases "int i + 1 \<le> index st")
    case True
    then show ?thesis using N1 by (simp add: lvl_ok_def logged_def)
  next
    case False
    then have lt: "index st < int i + 1" by simp
    from N2[OF lt] obtain new where "int i + 1 \<le> index (snd (nxt st))"
      "calls (snd (nxt st)) = calls st @ new" "no_resume new" by blast
    then show ?thesis using lt unfolding lvl_ok_def by (intro exI[of _ new]) auto
  qed
next
  case (Seq p q)
  have "lvl_ok i st (snd (exec p nxt st))" by (rule Seq.IH)
  moreover have "lvl_ok i (snd (exec p nxt st)) (snd (exec q nxt (snd (exec p nxt st))))"
    by (rule Seq.IH)
  ultimately show ?case
    by (auto split: prod.splits sum.splits dest: lvl_ok_trans)
next
  case (Try p q)
  have "lvl_ok i st (snd (exec p nxt st))" by (rule Try.IH)
  moreover have "lvl_ok i (snd (exec p nxt st)) (snd (exec q nxt (snd (exec p nxt st))))"
    by (rule Try.IH)
  ultimately show ?case
    by (auto split: prod.splits sum.splits dest: lvl_ok_trans)
qed (auto simp: lvl_ok_refl lvl_ok_ctx)

lemma runner_no_resume:
  "index st < int i \<Longrightarrow>
     int i \<le> index (snd (runner mws eh i st))
     \<and> (\<exists>new. calls (snd (runner mws eh i st)) = calls st @ new \<and> no_resume new)"
proof (induction mws eh i st rule: runner.induct)
  case (1 mws eh i st)
  then have False: "\<not> int i \<le> index st" by simp
  show ?case
  proof (cases "i < length mws")
    case len: True
    let ?st1 = "st\<lparr>index := int i, calls := calls st @ [MwStart i]\<rparr>"
    let ?nxt = "\<lambda>s. runner mws eh (i + 1) (logged (MwNext i) s)"
    let ?r = "exec (mws ! i) ?nxt ?st1"
    have N2: "int i + 1 \<le> index (snd (?nxt x))
               \<and> (\<exists>new. calls (snd (?nxt x)) = calls x @ new \<and> no_resume new)"
      if lt: "index x < int i + 1" for x
    proof -
      have "index (logged (MwNext i) x) < int (i + 1)" using lt by (simp add: logged_def)
      from "1.IH"[OF False refl len this] obtain n where
        n: "int (i + 1) \<le> index (snd (?nxt x))"
           "calls (snd (?nxt x)) = calls (logged (MwNext i) x) @ n" "no_resume n"
        by blast
      have "calls (snd (?nxt x)) = calls x @ (MwNext i # n)" using n(2) by (simp add: logged_def)
      moreover have "no_resume (MwNext i # n)" using n(3) by simp
      ultimately show ?thesis using n(1) by (intro conjI exI[of _ "MwNext i # n"]) simp_all
    qed
    have N1: "\<And>x. int i + 1 \<le> index x \<Longrightarrow> ?nxt x = (Inr (), logged (MwNext i) x)"
      by (simp add: runner_guard logged_def)
    have "lvl_ok i ?st1 (snd ?r)" by (rule exec_level[OF N1 N2])
    then obtain new where new: "calls (snd ?r) = calls st @ MwStart i # new"
      "int i \<le> index (snd ?r)" "no_resume new"
      unfolding lvl_ok_def by (auto dest: no_resume_no_throw)
    have ok: "\<exists>n. calls (snd ?r) = calls st @ n \<and> no_resume n"
      using new by (intro exI[of _ "MwStart i # new"]) simp
    have caught: "int i \<le> index (snd (catch_block eh i err (snd ?r)))
        \<and> (\<exists>n. calls (snd (catch_block eh i err (snd ?r))) = calls st @ n \<and> no_resume n)" for err
    proof -
      obtain es where es: "calls (snd (catch_block eh i err (snd ?r)))
            = calls (snd ?r) @ MwThrew i err # es" "mw_starts es = []"
        using catch_block_calls[of eh i err "snd ?r"] by auto
      have "no_resume ((MwStart i # new) @ (MwThrew i err # es))"
        using new(3) es(2) by (subst no_resume_append) auto
      then show ?thesis using es new catch_block_index[of eh i err "snd ?r"]
        by (intro conjI exI[of _ "(MwStart i # new) @ (MwThrew i err # es)"]) auto
    qed
    show ?thesis
      using new(2) ok caught
      by (auto simp: runner_unfold[OF False len] split: prod.splits sum.splits)
  next
    case False2: False
    then show ?thesis using False
      by (simp add: runner_beyond)
  qed
qed




lemma runner_extends: "\<exists>es. calls (snd (runner mws eh i st)) = calls st @ es"
  using runner_once[of st st mws eh i] by (auto simp: once_inv_def)

lemma next_seen_ext: "next_seen k st0 x \<Longrightarrow> calls y = calls x @ es \<Longrightarrow> next_seen k st0 y"
  unfolding next_seen_def by (elim exE conjE, rule_tac x = "new @ es" in exI) simp

lemma next_inv_ext:
  "next_inv k st0 x \<Longrightarrow> calls y = calls x @ es \<Longrightarrow> mw_starts es = [] \<Longrightarrow> index y = index x
     \<Longrightarrow> next_inv k st0 y"
  unfolding next_inv_def
  by (elim exE conjE, rule_tac x = "new @ es" in exI) (auto simp: mw_starts_append)

lemma next_inv_start:
  assumes "next_inv k st0 st" and "k < i \<longrightarrow> next_seen k st0 st"
    and "calls y = calls st @ es" and "set (mw_starts es) \<subseteq> {i}" and "index y = int i"
  shows "next_inv k st0 y"
proof -
  from assms(1) obtain new where n: "calls st = calls st0 @ new"
    "((\<exists>j\<in>set (mw_starts new). k < j) \<or> int k < index st) \<longrightarrow> MwNext k \<in> set new"
    by (auto simp: next_inv_def)
  have "MwNext k \<in> set (new @ es)"
    if a: "(\<exists>j\<in>set (mw_starts (new @ es)). k < j) \<or> int k < index y"
  proof (cases "k < i")
    case True
    then show ?thesis using assms(2) n(1) by (auto simp: next_seen_def)
  next
    case False
    then have "\<exists>j\<in>set (mw_starts new). k < j"
      using a assms(4,5) by (auto simp: mw_starts_append)
    then show ?thesis using n(2) by simp
  qed
  then show ?thesis unfolding next_inv_def
    using n(1) assms(3) by (intro exI[of _ "new @ es"]) auto
qed

lemma runner_next_inv:
  "next_inv k st0 st \<Longrightarrow> (k < i \<longrightarrow> next_seen k st0 st)
     \<Longrightarrow> next_inv k st0 (snd (runner mws eh i st))"
proof (induction mws eh i st rule: runner.induct)
  case (1 mws eh i st)
  show ?case
  proof (cases "int i \<le> index st")
    case True
    then show ?thesis using "1.prems" by (simp add: runner_guard)
  next
    case False
    show ?thesis
    proof (cases "i < length mws")
      case len: True
      let ?st1 = "st\<lparr>index := int i, calls := calls st @ [MwStart i]\<rparr>"
      let ?nxt = "\<lambda>s. runner mws eh (i + 1) (logged (MwNext i) s)"
      let ?I = "\<lambda>x. next_inv k st0 x \<and> (k < i \<longrightarrow> next_seen k st0 x)"
      have inv1: "?I ?st1"
      proof
        show "next_inv k st0 ?st1"
          by (rule next_inv_start[OF "1.prems", of _ "[MwStart i]"]) simp_all
        show "k < i \<longrightarrow> next_seen k st0 ?st1"
          using "1.prems"(2) by (auto intro: next_seen_ext[of k st0 st _ "[MwStart i]"])
      qed
      have nxt: "?I (snd (?nxt x))" if x: "?I x" for x
      proof
        let ?x' = "logged (MwNext i) x"
        have a: "next_inv k st0 ?x'"
          by (rule next_inv_ext[of k st0 x _ "[MwNext i]"]) (use x in \<open>simp_all add: logged_def\<close>)
        have b: "k < i + 1 \<longrightarrow> next_seen k st0 ?x'"
        proof
          assume "k < i + 1"
          show "next_seen k st0 ?x'"
          proof (cases "k = i")
            case True
            from x obtain new where "calls x = calls st0 @ new" by (auto simp: next_inv_def)
            then show ?thesis unfolding next_seen_def logged_def True
              by (intro exI[of _ "new @ [MwNext i]"]) simp
          next
            case False
            then have "k < i" using \<open>k < i + 1\<close> by simp
            then show ?thesis using x
              by (auto intro: next_seen_ext[of k st0 x _ "[MwNext i]"] simp: logged_def)
          qed
        qed
        show "next_inv k st0 (snd (?nxt x))"
          using "1.IH"[OF False refl len a b] .
        obtain es where es: "calls (snd (?nxt x)) = calls ?x' @ es"
          using runner_extends by blast
        show "k < i \<longrightarrow> next_seen k st0 (snd (?nxt x))"
        proof
          assume "k < i"
          then have "next_seen k st0 x" using x by simp
          moreover have "calls (snd (?nxt x)) = calls x @ (MwNext i # es)"
            unfolding es by (simp add: logged_def)
          ultimately show "next_seen k st0 (snd (?nxt x))"
            by (rule next_seen_ext)
        qed
      qed
      have upd: "?I (x\<lparr>ctx := c\<rparr>)" if "?I x" for x c
        using that by (auto simp: next_inv_def next_seen_def)
      have inv2: "?I (snd (exec (mws ! i) ?nxt ?st1))"
        by (rule exec_preserves[where I = ?I]) (rule nxt upd inv1, assumption?)+
      have inv3: "next_inv k st0 (snd (catch_block eh i err s))" if "next_inv k st0 s" for err s
      proof -
        obtain es where es: "calls (snd (catch_block eh i err s)) = calls s @ MwThrew i err # es"
          "mw_starts es = []"
          using catch_block_calls by blast
        show ?thesis
          by (rule next_inv_ext[OF that es(1)]) (simp_all add: es(2) catch_block_index)
      qed
      show ?thesis
        using inv2 inv3
        by (auto simp: runner_unfold[OF False len] split: prod.splits sum.splits)
    next
      case False2: False
      have "next_inv k st0 (st\<lparr>index := int i\<rparr>)"
        by (rule next_inv_start[OF "1.prems", of _ "[]"]) simp_all
      then show ?thesis using False False2 by (simp add: runner_beyond)
    qed
  qed
qed

section \<open>Scenes\<close>

lemma new_calls_append: "calls st' = calls st @ es \<Longrightarrow> new_calls st st' = es"
  by (simp add: new_calls_def)

lemma new_calls_same: "calls st' = calls st \<Longrightarrow> new_calls st st' = []"
  by (simp add: new_calls_def)

lemma handle_out_of_range:
  "int (length (steps sc)) \<le> step_index (ctx st) \<Longrightarrow> handle sc st = leave st"
  by (simp add: handle_def)

lemma handle_calls:
  "new_calls st (snd (handle sc st)) = []
   \<or> (0 \<le> step_index (ctx st) \<and> step_index (ctx st) < int (length (steps sc))
      \<and> new_calls st (snd (handle sc st)) = [StepCall (name sc) (nat (step_index (ctx st)))])"
  by (auto simp: handle_def leave_def invoke_def Let_def new_calls_def
      split: prod.splits sum.splits)

text \<open>
  C3, as amended. When \<open>handle\<close> returns normally with the step index in the session
  equal to the step count, that call has run a step function (the index was in bounds
  on entry) and has done nothing of its own but, at most, advance the step index to
  the step count: the session is what the step function left, apart from that index,
  so it holds the index and is not cleared, and the scene reference and the stopped
  flag are as the step function left them. It is the next call of \<open>handle\<close> on that
  session, for the following event, that clears the session, resets the scene
  reference and sets the stopped flag.
\<close>

theorem handle_leaves_on_next_event:
  assumes "handle sc st = (Inr (), st1)"
    and "get_prop (session (ctx st1)) ''step'' = JNum (int (length (steps sc)))"
    and "session (ctx st2) = session (ctx st1)"
  shows "0 \<le> step_index (ctx st) \<and> step_index (ctx st) < int (length (steps sc))
         \<and> (\<exists>r c'. (steps sc ! nat (step_index (ctx st))) (ctx st) = (Inr r, c')
               \<and> scene (ctx st1) = scene c' \<and> sceneStopped (ctx st1) = sceneStopped c'
               \<and> (session (ctx st1) = session c'
                  \<or> session (ctx st1)
                      = (session c')(''step'' \<mapsto> JNum (int (length (steps sc))))))
         \<and> session (ctx st1) ''step'' = Some (JNum (int (length (steps sc))))
         \<and> handle sc st2 = leave st2
         \<and> session (ctx (snd (handle sc st2))) = Map.empty
         \<and> scene (ctx (snd (handle sc st2))) = None
         \<and> sceneStopped (ctx (snd (handle sc st2)))"
proof -
  have s1: "session (ctx st1) ''step'' = Some (JNum (int (length (steps sc))))"
    using assms(2) by (auto simp: get_prop_def split: option.splits)
  have hi: "step_index (ctx st) < int (length (steps sc))"
  proof (rule ccontr)
    assume "\<not> step_index (ctx st) < int (length (steps sc))"
    then have "handle sc st = leave st" by (simp add: handle_out_of_range)
    then have "session (ctx st1) = Map.empty"
      using assms(1) by (auto simp: leave_def leave_ctx_def)
    then show False using s1 by simp
  qed
  have lo: "0 \<le> step_index (ctx st)"
  proof (rule ccontr)
    assume "\<not> 0 \<le> step_index (ctx st)"
    then have "handle sc st = (Inl TypeError, st)" using hi by (simp add: handle_def)
    then show False using assms(1) by simp
  qed
  obtain res c' where f: "(steps sc ! nat (step_index (ctx st))) (ctx st) = (res, c')"
    by (cases "(steps sc ! nat (step_index (ctx st))) (ctx st)")
  obtain r where r: "res = Inr r"
    using assms(1) hi lo f by (cases res) (auto simp: handle_def invoke_def Let_def)
  have st1: "scene (ctx st1) = scene c' \<and> sceneStopped (ctx st1) = sceneStopped c'
      \<and> (session (ctx st1) = session c'
         \<or> session (ctx st1) = (session c')(''step'' \<mapsto> JNum (step_index (ctx st) + 1)))"
    using assms(1) hi lo f r
    by (auto simp: handle_def invoke_def Let_def split: if_splits)
  have "session (ctx st1) = session c'
      \<or> session (ctx st1) = (session c')(''step'' \<mapsto> JNum (int (length (steps sc))))"
  proof (cases "session (ctx st1) = session c'")
    case True
    then show ?thesis by simp
  next
    case False
    then have e: "session (ctx st1) = (session c')(''step'' \<mapsto> JNum (step_index (ctx st) + 1))"
      using st1 by simp
    then have "step_index (ctx st) + 1 = int (length (steps sc))" using s1 by simp
    then show ?thesis using e by simp
  qed
  then have step: "\<exists>r c'. (steps sc ! nat (step_index (ctx st))) (ctx st) = (Inr r, c')
               \<and> scene (ctx st1) = scene c' \<and> sceneStopped (ctx st1) = sceneStopped c'
               \<and> (session (ctx st1) = session c'
                  \<or> session (ctx st1)
                      = (session c')(''step'' \<mapsto> JNum (int (length (steps sc)))))"
    using f r st1 by blast
  have idx: "step_index (ctx st2) = int (length (steps sc))"
    using assms(2,3) by (simp add: step_index_def)
  have l: "handle sc st2 = leave st2"
    by (rule handle_out_of_range) (simp add: idx)
  have after: "session (ctx (snd (handle sc st2))) = Map.empty
      \<and> scene (ctx (snd (handle sc st2))) = None \<and> sceneStopped (ctx (snd (handle sc st2)))"
    by (simp add: l leave_def leave_ctx_def)
  from lo hi step s1 l after show ?thesis by blast
qed

lemma wizard_last_step:
  "handle wizard (at_step ''registration'' 1 ''42'')
   = (Inr (), (at_step ''registration'' 1 ''42'')\<lparr>ctx := (ctx (at_step ''registration'' 1 ''42''))
        \<lparr>session := [''__scene'' \<mapsto> JStr ''registration'', ''step'' \<mapsto> JNum 2]\<rparr>,
        calls := [StepCall ''registration'' 1]\<rparr>)"
  by (simp add: handle_def at_step_def wizard_def step_index_def get_prop_def
      invoke_def ask_age_def ask_name_def fun_upd_twist)

theorem handle_leaves_on_next_event_witness:
  "session (ctx (snd (handle wizard (at_step ''registration'' 1 ''42'')))) ''step''
     = Some (JNum (int (length (steps wizard))))
   \<and> handle wizard (at_step ''registration'' 2 ''bye'') = leave (at_step ''registration'' 2 ''bye'')
   \<and> session (ctx (snd (handle wizard (at_step ''registration'' 2 ''bye'')))) = Map.empty
   \<and> scene (ctx (snd (handle wizard (at_step ''registration'' 2 ''bye'')))) = None
   \<and> sceneStopped (ctx (snd (handle wizard (at_step ''registration'' 2 ''bye''))))"
proof -
  let ?st1 = "snd (handle wizard (at_step ''registration'' 1 ''42''))"
  have 1: "handle wizard (at_step ''registration'' 1 ''42'') = (Inr (), ?st1)"
    by (simp add: wizard_last_step)
  have n: "length (steps wizard) = 2" by (simp add: wizard_def)
  have 2: "get_prop (session (ctx ?st1)) ''step'' = JNum (int (length (steps wizard)))"
    by (simp add: wizard_last_step get_prop_def n)
  have 4: "session (ctx (at_step ''registration'' 2 ''bye'')) = session (ctx ?st1)"
    by (simp add: wizard_last_step) (simp add: at_step_def)
  from handle_leaves_on_next_event[OF 1 2 4] show ?thesis by blast
qed

lemma shortcut_first_step:
  "handle shortcut (at_step ''shortcut'' 0 ''go'')
   = (Inr (), (at_step ''shortcut'' 0 ''go'')\<lparr>ctx := (ctx (at_step ''shortcut'' 0 ''go''))
        \<lparr>session := [''__scene'' \<mapsto> JStr ''shortcut'', ''step'' \<mapsto> JNum 2]\<rparr>,
        calls := [StepCall ''shortcut'' 0]\<rparr>)"
  by (simp add: handle_def at_step_def shortcut_def step_index_def get_prop_def
      invoke_def jump_to_end_def)

text \<open>
  C3, as stated, fails: the call of \<open>handle\<close> that advances the index to the step count
  returns with the session not cleared and the scene still attached. So does a call in
  which the step function itself sets the index to the step count.
\<close>

theorem handle_no_leave_same_event:
  "fst (handle wizard (at_step ''registration'' 1 ''42'')) = Inr ()
   \<and> get_prop (session (ctx (snd (handle wizard (at_step ''registration'' 1 ''42''))))) ''step''
       = JNum (int (length (steps wizard)))
   \<and> dom (session (ctx (snd (handle wizard (at_step ''registration'' 1 ''42''))))) \<noteq> {}
   \<and> scene (ctx (snd (handle wizard (at_step ''registration'' 1 ''42'')))) = Some ''registration''
   \<and> fst (handle shortcut (at_step ''shortcut'' 0 ''go'')) = Inr ()
   \<and> get_prop (session (ctx (snd (handle shortcut (at_step ''shortcut'' 0 ''go''))))) ''step''
       = JNum (int (length (steps shortcut)))
   \<and> dom (session (ctx (snd (handle shortcut (at_step ''shortcut'' 0 ''go''))))) \<noteq> {}
   \<and> scene (ctx (snd (handle shortcut (at_step ''shortcut'' 0 ''go'')))) = Some ''shortcut''"
proof -
  have n: "length (steps wizard) = 2" "length (steps shortcut) = 2"
    by (simp_all add: wizard_def shortcut_def)
  show ?thesis
    by (simp add: wizard_last_step shortcut_first_step get_prop_def n) (simp add: at_step_def)
qed

text \<open>
  C4. With the step index in bounds, a step function that returns \<open>false\<close> and leaves
  the stored step index as it found it: after \<open>handle\<close> the stored step index is what it
  was before, whatever text the event carried.
\<close>

theorem handle_false_keeps_step:
  assumes "0 \<le> step_index (ctx st)" and "step_index (ctx st) < int (length (steps sc))"
    and "(steps sc ! nat (step_index (ctx st))) (ctx st) = (Inr (JBool False), c')"
    and "session c' ''step'' = session (ctx st) ''step''"
  shows "fst (handle sc st) = Inr ()
         \<and> session (ctx (snd (handle sc st))) ''step'' = session (ctx st) ''step''"
  using assms by (simp add: handle_def invoke_def Let_def)

theorem handle_false_keeps_step_witness:
  "ctx_text (ctx (at_step ''registration'' 1 ''abc'')) = Some ''abc''
   \<and> fst (handle wizard (at_step ''registration'' 1 ''abc'')) = Inr ()
   \<and> session (ctx (snd (handle wizard (at_step ''registration'' 1 ''abc'')))) ''step''
       = Some (JNum 1)"
proof -
  let ?st = "at_step ''registration'' 1 ''abc''"
  have i: "step_index (ctx ?st) = 1"
    by (simp add: at_step_def step_index_def get_prop_def)
  have 1: "0 \<le> step_index (ctx ?st)" by (simp add: i)
  have 2: "step_index (ctx ?st) < int (length (steps wizard))" by (simp add: i wizard_def)
  have 3: "(steps wizard ! nat (step_index (ctx ?st))) (ctx ?st) = (Inr (JBool False), ctx ?st)"
    by (simp add: i wizard_def ask_age_def) (simp add: at_step_def)
  have 4: "session (ctx ?st) ''step'' = session (ctx ?st) ''step''" by simp
  have s: "session (ctx ?st) ''step'' = Some (JNum 1)" by (simp add: at_step_def)
  have t: "ctx_text (ctx ?st) = Some ''abc''" by (simp add: at_step_def)
  from handle_false_keeps_step[OF 1 2 3 4] s t show ?thesis by simp
qed

text \<open>
  C5. With the step index in bounds, a step function that returns a value other than
  \<open>false\<close> and leaves in the session a step index other than the one \<open>handle\<close> read
  before the call (another number, or none after \<open>leave\<close>): \<open>handle\<close> does not
  increment, the session is exactly what the step function left.
\<close>

theorem handle_no_double_advance:
  assumes "0 \<le> step_index (ctx st)" and "step_index (ctx st) < int (length (steps sc))"
    and "(steps sc ! nat (step_index (ctx st))) (ctx st) = (Inr r, c')"
    and "r \<noteq> JBool False"
    and "get_prop (session c') ''step'' \<noteq> JNum (step_index (ctx st))"
  shows "fst (handle sc st) = Inr ()
         \<and> session (ctx (snd (handle sc st))) = session c'
         \<and> get_prop (session (ctx (snd (handle sc st)))) ''step'' = get_prop (session c') ''step''"
  using assms by (simp add: handle_def invoke_def Let_def)

theorem handle_no_double_advance_witness:
  "ctx_text (ctx (at_step ''farewell'' 0 ''bye'')) = Some ''bye''
   \<and> fst (handle farewell (at_step ''farewell'' 0 ''bye'')) = Inr ()
   \<and> session (ctx (snd (handle farewell (at_step ''farewell'' 0 ''bye'')))) = Map.empty
   \<and> get_prop (session (ctx (snd (handle farewell (at_step ''farewell'' 0 ''bye''))))) ''step''
       = JUndefined"
proof -
  let ?st = "at_step ''farewell'' 0 ''bye''"
  have i: "step_index (ctx ?st) = 0"
    by (simp add: at_step_def step_index_def get_prop_def)
  have 1: "0 \<le> step_index (ctx ?st)" by (simp add: i)
  have 2: "step_index (ctx ?st) < int (length (steps farewell))" by (simp add: i farewell_def)
  have 3: "(steps farewell ! nat (step_index (ctx ?st))) (ctx ?st)
           = (Inr JUndefined, leave_ctx (ctx ?st))"
    by (simp add: i farewell_def finish_def)
  have 4: "JUndefined \<noteq> JBool False" by simp
  have 5: "get_prop (session (leave_ctx (ctx ?st))) ''step'' \<noteq> JNum (step_index (ctx ?st))"
    by (simp add: leave_ctx_def get_prop_def)
  have e: "session (leave_ctx (ctx ?st)) = Map.empty" by (simp add: leave_ctx_def)
  have u: "get_prop Map.empty ''step'' = JUndefined" by (simp add: get_prop_def)
  have t: "ctx_text (ctx ?st) = Some ''bye''" by (simp add: at_step_def)
  from handle_no_double_advance[OF 1 2 3 4 5] e u t show ?thesis by simp
qed

text \<open>
  C10. Every step function that \<open>handle\<close> calls is a step of the scene at an index below
  the step count. A stored step that is not a number counts as index 0, so with at
  least one step the step function called is the first. With the index at or beyond
  the step count no step function is called: \<open>handle\<close> is \<open>leave\<close>.
\<close>

theorem handle_step_in_range:
  "(\<forall>ev\<in>set (new_calls st (snd (handle sc st))).
       \<exists>i<length (steps sc). ev = StepCall (name sc) i)
   \<and> ((\<forall>n. get_prop (session (ctx st)) ''step'' \<noteq> JNum n) \<longrightarrow> step_index (ctx st) = 0)
   \<and> ((\<forall>n. get_prop (session (ctx st)) ''step'' \<noteq> JNum n) \<longrightarrow> 0 < length (steps sc) \<longrightarrow>
        new_calls st (snd (handle sc st)) = [StepCall (name sc) 0])
   \<and> (int (length (steps sc)) \<le> step_index (ctx st) \<longrightarrow>
        handle sc st = leave st \<and> new_calls st (snd (handle sc st)) = [])"
proof (intro conjI impI)
  show "\<forall>ev\<in>set (new_calls st (snd (handle sc st))). \<exists>i<length (steps sc). ev = StepCall (name sc) i"
    using handle_calls[of st sc] by auto
next
  assume "\<forall>n. get_prop (session (ctx st)) ''step'' \<noteq> JNum n"
  then show "step_index (ctx st) = 0"
    by (cases "get_prop (session (ctx st)) ''step''") (auto simp: step_index_def)
next
  assume a: "\<forall>n. get_prop (session (ctx st)) ''step'' \<noteq> JNum n" and b: "0 < length (steps sc)"
  from a have "step_index (ctx st) = 0"
    by (cases "get_prop (session (ctx st)) ''step''") (auto simp: step_index_def)
  then show "new_calls st (snd (handle sc st)) = [StepCall (name sc) 0]"
    using b
    by (auto simp: handle_def invoke_def Let_def new_calls_def split: prod.splits sum.splits)
next
  assume "int (length (steps sc)) \<le> step_index (ctx st)"
  then show "handle sc st = leave st" by (rule handle_out_of_range)
next
  assume "int (length (steps sc)) \<le> step_index (ctx st)"
  then show "new_calls st (snd (handle sc st)) = []"
    by (simp add: handle_out_of_range leave_def new_calls_def)
qed

theorem handle_step_in_range_witness:
  "step_index (ctx (no_step ''registration'' ''hello'')) = 0
   \<and> new_calls (no_step ''registration'' ''hello'')
        (snd (handle wizard (no_step ''registration'' ''hello'')))
      = [StepCall (name wizard) 0]
   \<and> handle wizard (at_step ''registration'' 2 ''bye'') = leave (at_step ''registration'' 2 ''bye'')
   \<and> new_calls (at_step ''registration'' 2 ''bye'')
        (snd (handle wizard (at_step ''registration'' 2 ''bye''))) = []"
proof -
  let ?a = "no_step ''registration'' ''hello''"
  let ?b = "at_step ''registration'' 2 ''bye''"
  have 1: "\<forall>n. get_prop (session (ctx ?a)) ''step'' \<noteq> JNum n"
    by (simp add: no_step_def get_prop_def)
  have 2: "0 < length (steps wizard)" by (simp add: wizard_def)
  have 3: "int (length (steps wizard)) \<le> step_index (ctx ?b)"
    by (simp add: wizard_def at_step_def step_index_def get_prop_def)
  from handle_step_in_range[of ?a wizard] 1 2 handle_step_in_range[of ?b wizard] 3
  show ?thesis by blast
qed

section \<open>Session stores and the scene manager\<close>

lemma MemorySessionStore_get_unknown:
  "ss uid = None \<Longrightarrow> MemorySessionStore_get ss uid = Inr Map.empty"
  by (simp add: MemorySessionStore_get_def)

lemma sessionStore_get_unknown:
  "f = None \<or> f = Some NotJson \<or> (\<exists>ss. f = Some (JsonObject ss) \<and> ss uid = None)
   \<Longrightarrow> sessionStore_get f uid = Inr Map.empty"
  by (auto simp: sessionStore_get_def or_empty_def)

lemma FileSessionStore_get_unknown:
  "f = Some (JsonObject ss) \<Longrightarrow> ss uid = None \<Longrightarrow> FileSessionStore_get f uid = Inr Map.empty"
  by (simp add: FileSessionStore_get_def or_empty_def)

text \<open>
  C9. \<open>get\<close> of an identifier that was never written gives the empty session from the
  in-memory store and from the store of sessionStore.js, whose \<open>readSessions\<close> guards
  the read (lemmas above). The \<open>FileSessionStore\<close> class has no such guard: constructed
  on a sessions file that exists and does not hold JSON, its \<open>get\<close> throws.
\<close>

theorem FileSessionStore_get_throws:
  "FileSessionStore_get (new_FileSessionStore (Some NotJson)) ''u1'' = Inl SyntaxError
   \<and> sessionStore_get (Some NotJson) ''u1'' = Inr Map.empty"
  by (simp add: FileSessionStore_get_def sessionStore_get_def or_empty_def)

lemma store_get_set:
  assumes a: "store_set S uid s = (Inr (), S')"
  shows "store_get S' uid = Inr (persisted S s)"
proof (cases S)
  case (MemoryStore ss)
  then show ?thesis using a
    by (auto simp: MemorySessionStore_set_def MemorySessionStore_get_def)
next
  case (FileStore f)
  show ?thesis
  proof (cases "FileSessionStore_read f")
    case (Inl e)
    then show ?thesis using a FileStore by (simp add: FileSessionStore_set_def)
  next
    case (Inr c)
    then show ?thesis using a FileStore
      by (cases c)
         (auto simp: FileSessionStore_set_def FileSessionStore_get_def or_empty_def
            json_sessions_def)
  qed
qed

lemma file_store_drops_undefined:
  "store_get (snd (store_set (FileStore (Some (JsonObject Map.empty))) ''u1''
      [''a'' \<mapsto> JUndefined, ''b'' \<mapsto> JNum 1])) ''u1'' = Inr [''b'' \<mapsto> JNum 1]"
  by (auto simp: FileSessionStore_set_def FileSessionStore_get_def or_empty_def
      json_sessions_def json_session_def)

text \<open>
  C8. Once the session is loaded and either path (the active scene's \<open>handle\<close>, or
  \<open>next\<close>) has returned, the middleware ends with \<open>set\<close> of the derived id and the
  session of the context, whatever the path did: its result and the store it leaves
  are those of that \<open>set\<close>. When the \<open>set\<close> succeeds, a \<open>get\<close> of that id gives back
  what the store keeps of that session: the session itself from the in-memory store,
  its JSON form (without the keys that hold \<open>undefined\<close>) from the file-backed store.
\<close>

theorem middleware_saves_session:
  assumes "store_get (sessionStore st) (derive_id (ctx st)) = Inr s"
    and "resume_or_next mgr nxt (st\<lparr>ctx := (ctx st)\<lparr>session := s\<rparr>\<rparr>) = (Inr (), st1)"
  shows "middleware mgr nxt st
           = (fst (store_set (sessionStore st1) (derive_id (ctx st)) (session (ctx st1))),
              st1\<lparr>sessionStore :=
                snd (store_set (sessionStore st1) (derive_id (ctx st)) (session (ctx st1)))\<rparr>)
         \<and> (fst (middleware mgr nxt st) = Inr () \<longrightarrow>
              store_get (sessionStore (snd (middleware mgr nxt st))) (derive_id (ctx st))
                = Inr (persisted (sessionStore st1) (session (ctx st1))))
         \<and> (\<forall>m. sessionStore st1 = MemoryStore m \<longrightarrow>
              middleware mgr nxt st
                = (Inr (), st1\<lparr>sessionStore :=
                     MemoryStore (m(derive_id (ctx st) \<mapsto> session (ctx st1)))\<rparr>))"
proof -
  let ?set = "store_set (sessionStore st1) (derive_id (ctx st)) (session (ctx st1))"
  have m: "middleware mgr nxt st = (fst ?set, st1\<lparr>sessionStore := snd ?set\<rparr>)"
    using assms by (simp add: middleware_def Let_def split: prod.splits)
  have g: "store_get (snd ?set) (derive_id (ctx st))
             = Inr (persisted (sessionStore st1) (session (ctx st1)))"
    if "fst ?set = Inr ()"
    by (rule store_get_set[of "sessionStore st1"]) (use that in \<open>simp add: prod_eq_iff\<close>)
  have mem: "?set = (Inr (), MemoryStore (m'(derive_id (ctx st) \<mapsto> session (ctx st1))))"
    if "sessionStore st1 = MemoryStore m'" for m'
    using that by (simp add: MemorySessionStore_set_def)
  show ?thesis using m g mem by simp
qed

theorem middleware_saves_session_witness:
  "fst (middleware stage proceed (stored mid_registration ''42'')) = Inr ()
   \<and> store_get (sessionStore (snd (middleware stage proceed (stored mid_registration ''42'')))) ''u1''
       = Inr [''__scene'' \<mapsto> JStr ''registration'', ''step'' \<mapsto> JNum 2]
   \<and> fst (middleware stage remember (stored Map.empty ''hi'')) = Inr ()
   \<and> store_get (sessionStore (snd (middleware stage remember (stored Map.empty ''hi'')))) ''u1''
       = Inr [''seen'' \<mapsto> JBool True]"
proof -
  let ?a = "stored mid_registration ''42''"
  let ?aload = "?a\<lparr>ctx := (ctx ?a)\<lparr>session := mid_registration\<rparr>\<rparr>"
  let ?adone = "snd (resume_or_next stage proceed ?aload)"
  have ida: "derive_id (ctx ?a) = ''u1''" by (simp add: stored_def derive_id_def)
  have a1: "store_get (sessionStore ?a) (derive_id (ctx ?a)) = Inr mid_registration"
    by (simp add: stored_def derive_id_def MemorySessionStore_get_def)
  have run: "resume_or_next stage proceed ?aload
      = (Inr (), ?aload\<lparr>ctx := (ctx ?aload)\<lparr>scene := Some ''registration'',
            session := [''__scene'' \<mapsto> JStr ''registration'', ''step'' \<mapsto> JNum 2]\<rparr>,
          calls := [StepCall ''registration'' 1]\<rparr>)"
    by (simp add: resume_or_next_def active_scene_def stage_def register_def handle_def
          wizard_def stored_def mid_registration_def step_index_def get_prop_def invoke_def
          ask_age_def)
  have a2: "resume_or_next stage proceed ?aload = (Inr (), ?adone)" by (simp add: run)
  have sa: "session (ctx ?adone) = [''__scene'' \<mapsto> JStr ''registration'', ''step'' \<mapsto> JNum 2]"
    by (simp add: run)
  let ?b = "stored Map.empty ''hi''"
  let ?bload = "?b\<lparr>ctx := (ctx ?b)\<lparr>session := Map.empty\<rparr>\<rparr>"
  let ?bdone = "snd (resume_or_next stage remember ?bload)"
  have idb: "derive_id (ctx ?b) = ''u1''" by (simp add: stored_def derive_id_def)
  have b1: "store_get (sessionStore ?b) (derive_id (ctx ?b)) = Inr Map.empty"
    by (simp add: stored_def derive_id_def MemorySessionStore_get_def)
  have runb: "resume_or_next stage remember ?bload
      = (Inr (), ?bload\<lparr>ctx := (ctx ?bload)\<lparr>session := [''seen'' \<mapsto> JBool True]\<rparr>\<rparr>)"
    by (simp add: resume_or_next_def active_scene_def remember_def stored_def get_prop_def)
  have b2: "resume_or_next stage remember ?bload = (Inr (), ?bdone)" by (simp add: runb)
  have sb: "session (ctx ?bdone) = [''seen'' \<mapsto> JBool True]" by (simp add: runb)
  have ma: "sessionStore ?adone = MemoryStore [''u1'' \<mapsto> mid_registration]"
    by (simp add: run) (simp add: stored_def)
  have mb: "sessionStore ?bdone = MemoryStore [''u1'' \<mapsto> Map.empty]"
    by (simp add: runb) (simp add: stored_def)
  from middleware_saves_session[OF a1 a2] ma
  have ra: "middleware stage proceed ?a
      = (Inr (), ?adone\<lparr>sessionStore :=
           MemoryStore ([''u1'' \<mapsto> mid_registration](derive_id (ctx ?a) \<mapsto> session (ctx ?adone)))\<rparr>)"
    by blast
  from middleware_saves_session[OF b1 b2] mb
  have rb: "middleware stage remember ?b
      = (Inr (), ?bdone\<lparr>sessionStore :=
           MemoryStore ([''u1'' \<mapsto> Map.empty](derive_id (ctx ?b) \<mapsto> session (ctx ?bdone)))\<rparr>)"
    by blast
  show ?thesis
    by (simp only: ra rb ida idb sa sb) (simp add: MemorySessionStore_get_def)
qed

section \<open>The middleware chain and the dispatch\<close>

lemma runMiddlewares_once: "once_inv st (snd (runMiddlewares b st))"
  unfolding runMiddlewares_def
  by (rule runner_once) (simp add: once_inv_def)

lemma runner_index_mono: "c \<le> index st \<Longrightarrow> c \<le> index (snd (runner mws eh i st))"
proof (induction mws eh i st rule: runner.induct)
  case (1 mws eh i st)
  show ?case
  proof (cases "int i \<le> index st")
    case True
    then show ?thesis using "1.prems" by (simp add: runner.simps)
  next
    case False
    show ?thesis
    proof (cases "i < length mws")
      case len: True
      let ?st1 = "st\<lparr>index := int i, calls := calls st @ [MwStart i]\<rparr>"
      have c1: "c \<le> index ?st1" using "1.prems" False by simp
      have nxt: "c \<le> index (snd (runner mws eh (i + 1) (logged (MwNext i) x)))"
        if "c \<le> index x" for x
        using "1.IH"[OF False refl len, of x] that by (simp add: logged_def)
      have c2: "c \<le> index (snd (exec (mws ! i)
          (\<lambda>s. runner mws eh (i + 1) (logged (MwNext i) s)) ?st1))"
        by (rule exec_preserves[where I = "\<lambda>x. c \<le> index x"]) (rule nxt, assumption, simp, rule c1)
      show ?thesis
        using c2 catch_block_index
        by (auto simp: runner_unfold[OF False len] split: prod.splits sum.splits)
    next
      case False2: False
      then show ?thesis using False "1.prems"
        by (simp add: runner_beyond)
    qed
  qed
qed

lemma runner_reaches: "int i \<le> index (snd (runner mws eh i st))"
proof (cases "int i \<le> index st")
  case True
  then show ?thesis by (simp add: runner.simps)
next
  case False
  then show ?thesis using runner_no_resume[of st i mws eh] by simp
qed

text \<open>
  C6. In one call of \<open>runMiddlewares\<close> no middleware index starts twice, however often
  the middlewares call \<open>next\<close>. \<open>runner i\<close> leaves \<open>index\<close> at \<open>i\<close> or above, no call of
  \<open>runner\<close> lowers \<open>index\<close>, and \<open>runner j\<close> with \<open>j\<close> at most \<open>index\<close> returns at once
  and changes nothing: once index \<open>i\<close> has run, \<open>next\<close> for an index up to \<open>i\<close> does
  nothing.
\<close>

theorem runner_at_most_once:
  "distinct (mw_starts (new_calls st (snd (runMiddlewares b st))))
   \<and> (\<forall>i\<in>set (mw_starts (new_calls st (snd (runMiddlewares b st)))).
         int i \<le> index (snd (runMiddlewares b st)))
   \<and> int i \<le> index (snd (runner mws eh i s))
   \<and> index s \<le> index (snd (runner mws eh i s))
   \<and> (int j \<le> index s \<longrightarrow> runner mws eh j s = (Inr (), s))"
proof -
  from runMiddlewares_once[of st b] obtain new where
    n: "calls (snd (runMiddlewares b st)) = calls st @ new" "distinct (mw_starts new)"
       "\<forall>i\<in>set (mw_starts new). int i \<le> index (snd (runMiddlewares b st))"
    by (auto simp: once_inv_def)
  have "new_calls st (snd (runMiddlewares b st)) = new"
    by (rule new_calls_append) (rule n(1))
  then show ?thesis using n(2,3) runner_reaches[of i mws eh s] runner_index_mono[of "index s" s mws eh i]
    by (simp add: runner_guard)
qed

lemma eager_run:
  "runMiddlewares eager (fresh hi_there)
     = (Inr (), (fresh hi_there)\<lparr>index := 2,
          calls := [MwStart 0, MwNext 0, MwStart 1, MwNext 1, MwNext 0]\<rparr>)"
  by (simp add: runMiddlewares_def eager_def use_def new_bot_def fresh_def runner.simps Let_def
      logged_def)

theorem runner_at_most_once_witness:
  "mw_starts (new_calls (fresh hi_there) (snd (runMiddlewares eager (fresh hi_there)))) = [0, 1]
   \<and> distinct (mw_starts (new_calls (fresh hi_there) (snd (runMiddlewares eager (fresh hi_there)))))
   \<and> index (snd (runMiddlewares eager (fresh hi_there))) = 2
   \<and> runner (middlewares eager) None 1 (snd (runMiddlewares eager (fresh hi_there)))
       = (Inr (), snd (runMiddlewares eager (fresh hi_there)))"
proof -
  let ?s = "snd (runMiddlewares eager (fresh hi_there))"
  have i: "index ?s = 2" by (simp add: eager_run)
  have c: "mw_starts (new_calls (fresh hi_there) ?s) = [0, 1]"
    by (simp add: eager_run new_calls_def) (simp add: fresh_def)
  have g: "int 1 \<le> index ?s" by (simp add: i)
  from runner_at_most_once[where st = "fresh hi_there" and b = eager and i = 1 and j = 1
        and s = ?s and mws = "middlewares eager" and eh = None] g i c
  show ?thesis by blast
qed














lemma runMiddlewares_next_inv: "next_inv k st (snd (runMiddlewares b st))"
  unfolding runMiddlewares_def
  by (rule runner_next_inv) (simp_all add: next_inv_def)

text \<open>
  C2, as amended. If, while an event is processed, the middleware at index \<open>k\<close> never
  calls \<open>next\<close>, no middleware with a larger index starts. The handler dispatch is not
  part of the chain: when \<open>runMiddlewares\<close> has returned, the webhook handler goes on
  to the message and postback handlers, whether or not the middlewares called \<open>next\<close>;
  on a message with text the first registered message handler is called on the state
  \<open>runMiddlewares\<close> left.
\<close>

theorem no_proceed_stops_chain:
  assumes "MwNext k \<notin> set (new_calls st (snd (runMiddlewares b st)))"
  shows "(\<forall>j\<in>set (mw_starts (new_calls st (snd (runMiddlewares b st)))). j \<le> k)
         \<and> (fst (runMiddlewares b st) = Inr () \<longrightarrow>
              process_event b ev st = dispatch b ev (snd (runMiddlewares b st)))
         \<and> (fst (runMiddlewares b st) = Inr () \<longrightarrow> truthy_str (message_text ev) \<longrightarrow>
              handlers_message b = g # gs \<longrightarrow>
              process_event b ev st =
                (case g (snd (runMiddlewares b st)) of
                   (Inl e, s1) \<Rightarrow> (Inl e, s1)
                 | (Inr result, s1) \<Rightarrow>
                     (case run_handlers gs (mark result False) s1 of
                        (Inl e, s2) \<Rightarrow> (Inl e, s2)
                      | (Inr handled, s2) \<Rightarrow> handle_postbacks b ev handled s2)))"
proof -
  from runMiddlewares_next_inv[of k st b] obtain new where
    n: "calls (snd (runMiddlewares b st)) = calls st @ new"
       "(\<exists>j\<in>set (mw_starts new). k < j) \<longrightarrow> MwNext k \<in> set new"
    by (auto simp: next_inv_def)
  have e: "new_calls st (snd (runMiddlewares b st)) = new"
    by (rule new_calls_append) (rule n(1))
  have 1: "\<forall>j\<in>set (mw_starts (new_calls st (snd (runMiddlewares b st)))). j \<le> k"
    using n(2) assms unfolding e by (meson not_le_imp_less)
  have 2: "fst (runMiddlewares b st) = Inr () \<longrightarrow>
      process_event b ev st = dispatch b ev (snd (runMiddlewares b st))"
    by (auto simp: process_event_def split: prod.splits sum.splits)
  have 3: "fst (runMiddlewares b st) = Inr () \<longrightarrow> truthy_str (message_text ev) \<longrightarrow>
      handlers_message b = g # gs \<longrightarrow>
      process_event b ev st =
        (case g (snd (runMiddlewares b st)) of
           (Inl e, s1) \<Rightarrow> (Inl e, s1)
         | (Inr result, s1) \<Rightarrow>
             (case run_handlers gs (mark result False) s1 of
                (Inl e, s2) \<Rightarrow> (Inl e, s2)
              | (Inr handled, s2) \<Rightarrow> handle_postbacks b ev handled s2))"
    by (auto simp: process_event_def dispatch_def handle_messages_def
        split: prod.splits sum.splits)
  from 1 2 3 show ?thesis by blast
qed

lemma staged_run:
  "runMiddlewares staged resumed = (Inr (), resumed\<lparr>index := 0, calls := [MwStart 0]\<rparr>)"
  by (simp add: runMiddlewares_def staged_def on_def use_def new_bot_def resumed_def
      runner.simps Let_def logged_def scene_gate_def in_scene_def mid_registration_def)

lemma gatekeeper_run:
  "runMiddlewares gatekeeper (fresh hi_there)
     = (Inr (), (fresh hi_there)\<lparr>index := 0, calls := [MwStart 0]\<rparr>)"
  by (simp add: runMiddlewares_def gatekeeper_def on_def use_def new_bot_def fresh_def
      runner.simps Let_def logged_def)

theorem no_proceed_stops_chain_witness:
  "calls_next (middlewares staged ! 0)
   \<and> new_calls resumed (snd (runMiddlewares staged resumed)) = [MwStart 0]
   \<and> mw_starts (new_calls resumed (snd (runMiddlewares staged resumed))) = [0]
   \<and> process_event staged hi_there resumed
       = dispatch staged hi_there (snd (runMiddlewares staged resumed))"
proof -
  have 0: "calls_next (middlewares staged ! 0)"
    by (simp add: staged_def on_def use_def new_bot_def scene_gate_def)
  have c: "new_calls resumed (snd (runMiddlewares staged resumed)) = [MwStart 0]"
    by (simp add: staged_run new_calls_def) (simp add: resumed_def)
  have 1: "MwNext 0 \<notin> set (new_calls resumed (snd (runMiddlewares staged resumed)))"
    by (simp add: c)
  have 3: "fst (runMiddlewares staged resumed) = Inr ()"
    by (simp add: staged_run)
  have 4: "mw_starts (new_calls resumed (snd (runMiddlewares staged resumed))) = [0]"
    by (simp add: c)
  from no_proceed_stops_chain[OF 1, of hi_there] 0 3 4 c
  show ?thesis by blast
qed

text \<open>
  C2, as stated, fails: the first middleware of this bot never calls \<open>next\<close>, the second
  middleware does not run, and the message handler still runs.
\<close>

theorem dispatch_runs_without_proceed:
  "\<not> calls_next (middlewares gatekeeper ! 0)
   \<and> calls (snd (process_event gatekeeper hi_there (fresh hi_there)))
       = [MwStart 0, Called ''logFn'']"
proof -
  have 2: "\<not> calls_next (middlewares gatekeeper ! 0)"
    by (simp add: gatekeeper_def on_def use_def new_bot_def)
  have "calls (snd (process_event gatekeeper hi_there (fresh hi_there)))
       = [MwStart 0, Called ''logFn'']"
    by (simp add: process_event_def gatekeeper_run)
       (simp add: dispatch_def handle_messages_def handle_postbacks_def hi_there_def
          gatekeeper_def on_def use_def new_bot_def listener_def invoke_def log_fn_def
          mark_def fresh_def)
  then show ?thesis using 2 by simp
qed

lemma run_handlers_handled: "run_handlers hs True st = (Inr True, st)"
  by (induction hs) auto

lemma run_handlers_append:
  "run_handlers (hs @ hs') handled st =
     (case run_handlers hs handled st of
        (Inl e, st1) \<Rightarrow> (Inl e, st1)
      | (Inr handled1, st1) \<Rightarrow> run_handlers hs' handled1 st1)"
  by (induction hs arbitrary: handled st) (auto split: prod.splits sum.splits)

lemma first_match_some:
  "\<exists>p\<in>set ps. m p t \<Longrightarrow>
     first_match m ps fn t st =
       (case fn st of (Inl e, st') \<Rightarrow> (Inl e, st') | (Inr v, st') \<Rightarrow> (Inr (JBool True), st'))"
  by (induction ps) auto

lemma first_match_none:
  "\<not> (\<exists>p\<in>set ps. m p t) \<Longrightarrow> first_match m ps fn t st = (Inr (JBool False), st)"
  by (induction ps) auto

text \<open>
  C1, as amended. On a message with text the entries of \<open>handlers.message\<close> run in
  registration order, and an entry \<open>g\<close>, generic handler or closure of \<open>hears\<close> or
  \<open>command\<close>, is called exactly when the entries registered before it have all
  returned without \<open>true\<close> and without throwing. The closure of \<open>hears\<close> or \<open>command\<close>
  calls its callback when the text is not empty and one of its triggers matches it,
  and then returns \<open>true\<close> (or throws what the callback throws); otherwise it returns
  \<open>false\<close>. So when such a closure is reached and matches, no entry registered after it
  is called, generic handlers included.
\<close>

theorem message_handlers_until_true:
  "run_handlers (hs @ g # hs') False st =
     (case run_handlers hs False st of
        (Inl e, st1) \<Rightarrow> (Inl e, st1)
      | (Inr handled, st1) \<Rightarrow>
          if handled then (Inr True, st1)
          else (case g st1 of
                  (Inl e, st2) \<Rightarrow> (Inl e, st2)
                | (Inr result, st2) \<Rightarrow> run_handlers hs' (result = JBool True) st2))
   \<and> (truthy_str (ctx_text (ctx st)) \<longrightarrow> (\<exists>p\<in>set pats. m p (the (ctx_text (ctx st)))) \<longrightarrow>
        on_text m pats fn st =
          (case fn st of (Inl e, st') \<Rightarrow> (Inl e, st') | (Inr v, st') \<Rightarrow> (Inr (JBool True), st')))
   \<and> (\<not> (truthy_str (ctx_text (ctx st)) \<and> (\<exists>p\<in>set pats. m p (the (ctx_text (ctx st))))) \<longrightarrow>
        on_text m pats fn st = (Inr (JBool False), st))
   \<and> (run_handlers hs False st = (Inr False, sa) \<longrightarrow>
        truthy_str (ctx_text (ctx sa)) \<longrightarrow> (\<exists>p\<in>set pats. m p (the (ctx_text (ctx sa)))) \<longrightarrow>
        fn sa = (Inr v, sb) \<longrightarrow>
        run_handlers (hs @ on_text m pats fn # hs') False st = (Inr True, sb))"
proof (intro conjI impI)
  show "run_handlers (hs @ g # hs') False st =
     (case run_handlers hs False st of
        (Inl e, st1) \<Rightarrow> (Inl e, st1)
      | (Inr handled, st1) \<Rightarrow>
          if handled then (Inr True, st1)
          else (case g st1 of
                  (Inl e, st2) \<Rightarrow> (Inl e, st2)
                | (Inr result, st2) \<Rightarrow> run_handlers hs' (result = JBool True) st2))"
    by (auto simp: run_handlers_append run_handlers_handled mark_def
        split: prod.splits sum.splits)
next
  assume "truthy_str (ctx_text (ctx st))" "\<exists>p\<in>set pats. m p (the (ctx_text (ctx st)))"
  then show "on_text m pats fn st =
      (case fn st of (Inl e, st') \<Rightarrow> (Inl e, st') | (Inr v, st') \<Rightarrow> (Inr (JBool True), st'))"
    by (simp add: on_text_def first_match_some)
next
  assume "\<not> (truthy_str (ctx_text (ctx st)) \<and> (\<exists>p\<in>set pats. m p (the (ctx_text (ctx st)))))"
  then show "on_text m pats fn st = (Inr (JBool False), st)"
    by (auto simp: on_text_def first_match_none)
next
  assume a: "run_handlers hs False st = (Inr False, sa)"
    and t: "truthy_str (ctx_text (ctx sa))" "\<exists>p\<in>set pats. m p (the (ctx_text (ctx sa)))"
    and f: "fn sa = (Inr v, sb)"
  have "on_text m pats fn sa = (Inr (JBool True), sb)"
    using t f by (simp add: on_text_def first_match_some)
  then show "run_handlers (hs @ on_text m pats fn # hs') False st = (Inr True, sb)"
    using a by (simp add: run_handlers_append run_handlers_handled mark_def)
qed

lemma hears_hi_matches:
  "ctx st = ctx (fresh hi_there) \<Longrightarrow>
     hears_hi st = (Inr (JBool True), st\<lparr>calls := calls st @ [Called ''hears'']\<rparr>)"
  by (simp add: hears_hi_def on_text_def fresh_def new_Context_def hi_there_def listener_def
      invoke_def reply_hi_def)

lemma log_fn_runs:
  "listener ''logFn'' log_fn st = (Inr JUndefined, st\<lparr>calls := calls st @ [Called ''logFn'']\<rparr>)"
  by (simp add: listener_def invoke_def log_fn_def)

theorem message_handlers_until_true_witness:
  "run_handlers ([hears_hi] @ listener ''logFn'' log_fn # []) False (fresh hi_there)
     = (Inr True, (fresh hi_there)\<lparr>calls := [Called ''hears'']\<rparr>)
   \<and> run_handlers ([] @ listener ''logFn'' log_fn # [hears_hi]) False (fresh hi_there)
     = (Inr True, (fresh hi_there)\<lparr>calls := [Called ''logFn'', Called ''hears'']\<rparr>)
   \<and> on_text hears_match [PString ''hi''] (listener ''hears'' reply_hi) (fresh good_day)
     = (Inr (JBool False), fresh good_day)"
proof -
  have e: "calls (fresh hi_there) = []" by (simp add: fresh_def)
  have a: "run_handlers [hears_hi] False (fresh hi_there)
      = (Inr True, (fresh hi_there)\<lparr>calls := [Called ''hears'']\<rparr>)"
    by (simp add: hears_hi_matches mark_def e)
  have c: "\<not> (truthy_str (ctx_text (ctx (fresh good_day)))
      \<and> (\<exists>p\<in>set [PString ''hi'']. hears_match p (the (ctx_text (ctx (fresh good_day))))))"
    by (simp add: fresh_def new_Context_def good_day_def)
  note t1 = message_handlers_until_true[of "[hears_hi]" "listener ''logFn'' log_fn" "[]"
        "fresh hi_there", THEN conjunct1]
  have 1: "run_handlers ([hears_hi] @ listener ''logFn'' log_fn # []) False (fresh hi_there)
     = (Inr True, (fresh hi_there)\<lparr>calls := [Called ''hears'']\<rparr>)"
    unfolding t1 a by simp
  note t2 = message_handlers_until_true[of "[]" "listener ''logFn'' log_fn" "[hears_hi]"
        "fresh hi_there", THEN conjunct1]
  have 2: "run_handlers ([] @ listener ''logFn'' log_fn # [hears_hi]) False (fresh hi_there)
     = (Inr True, (fresh hi_there)\<lparr>calls := [Called ''logFn'', Called ''hears'']\<rparr>)"
    unfolding t2 by (simp add: log_fn_runs e hears_hi_matches mark_def)
  from message_handlers_until_true[of _ _ _ "fresh good_day" "[PString ''hi'']" hears_match
        "listener ''hears'' reply_hi"] c
  have 3: "on_text hears_match [PString ''hi''] (listener ''hears'' reply_hi) (fresh good_day)
     = (Inr (JBool False), fresh good_day)"
    by blast
  from 1 2 3 show ?thesis by blast
qed

text \<open>
  C1, as stated, fails: with \<open>hears("hi")\<close> registered before \<open>on('message', logFn)\<close>,
  the message \<open>hi there\<close> runs the callback of \<open>hears\<close> and does not run \<open>logFn\<close>.
\<close>

theorem hears_match_skips_on_message:
  "calls (snd (process_event greeter hi_there (fresh hi_there))) = [Called ''hears'']
   \<and> Called ''logFn'' \<notin> set (calls (snd (process_event greeter hi_there (fresh hi_there))))"
proof -
  have m: "handlers_message greeter = [hears_hi, listener ''logFn'' log_fn]"
    by (simp add: greeter_def hears_def on_def new_bot_def hears_hi_def)
  have r: "runMiddlewares greeter (fresh hi_there) = (Inr (), (fresh hi_there)\<lparr>index := 0\<rparr>)"
    by (simp add: runMiddlewares_def greeter_def hears_def on_def new_bot_def runner.simps
        Let_def fresh_def logged_def)
  have p: "postback hi_there = None" "truthy_str (message_text hi_there)"
    by (simp_all add: hi_there_def)
  have e: "calls (fresh hi_there) = []" by (simp add: fresh_def)
  have "process_event greeter hi_there (fresh hi_there)
      = (Inr True, (fresh hi_there)\<lparr>index := 0, calls := [Called ''hears'']\<rparr>)"
    by (simp add: process_event_def r dispatch_def handle_messages_def handle_postbacks_def
        m p hears_hi_matches mark_def e)
  then show ?thesis by simp
qed

lemma observer_runs_both:
  "calls (snd (process_event observer hi_there (fresh hi_there)))
     = [Called ''logFn'', Called ''hears'']"
proof -
  have m: "handlers_message observer = [listener ''logFn'' log_fn, hears_hi]"
    by (simp add: observer_def hears_def on_def new_bot_def hears_hi_def)
  have r: "runMiddlewares observer (fresh hi_there) = (Inr (), (fresh hi_there)\<lparr>index := 0\<rparr>)"
    by (simp add: runMiddlewares_def observer_def hears_def on_def new_bot_def runner.simps
        Let_def fresh_def logged_def)
  have p: "postback hi_there = None" "truthy_str (message_text hi_there)"
    by (simp_all add: hi_there_def)
  have e: "calls (fresh hi_there) = []" by (simp add: fresh_def)
  show ?thesis
    by (simp add: process_event_def r dispatch_def handle_messages_def handle_postbacks_def
        m p log_fn_runs hears_hi_matches mark_def e)
qed

end
